theory Spec2Isabelle
  imports Complex_Main "HOL-Library.Word"
begin

section \<open>The heterogeneous memory pool (cs_base_mempool.cxx)\<close>

subsection \<open>Blocks and allocation modes\<close>

text \<open>
  The allocation modes of \<^verbatim>\<open>cs_alloc_mode_t\<close>, in the order of the enumeration. The
  source compares modes as integers (\<^verbatim>\<open>mode < CS_ALLOC_HOST_DEVICE_PINNED\<close>), so the
  rank of each mode is written out.
\<close>

datatype cs_alloc_mode_t =
    CS_ALLOC_HOST
  | CS_ALLOC_HOST_DEVICE
  | CS_ALLOC_HOST_DEVICE_PINNED
  | CS_ALLOC_HOST_DEVICE_SHARED
  | CS_ALLOC_DEVICE

fun mode_rank :: "cs_alloc_mode_t \<Rightarrow> nat" where
  "mode_rank CS_ALLOC_HOST = 0"
| "mode_rank CS_ALLOC_HOST_DEVICE = 1"
| "mode_rank CS_ALLOC_HOST_DEVICE_PINNED = 2"
| "mode_rank CS_ALLOC_HOST_DEVICE_SHARED = 3"
| "mode_rank CS_ALLOC_DEVICE = 4"

text \<open>
  A pointer is an opaque address; \<open>nullptr\<close> is address 0. Sizes are \<^verbatim>\<open>size_t\<close>,
  a 64-bit unsigned integer whose arithmetic wraps.
\<close>

type_synonym ptr = nat

definition nullptr :: ptr where
  "nullptr = 0"

type_synonym size_t = "64 word"

text \<open>
  \<^verbatim>\<open>cs_mem_block_t\<close> as the pool uses it (accelerator build: the structure has a
  device pointer). The field \<^verbatim>\<open>size\<close> is named \<open>size_b\<close> here.
\<close>

record cs_mem_block_t =
  host_ptr :: ptr
  device_ptr :: ptr
  size_b :: size_t
  mode :: cs_alloc_mode_t
  ttl :: int

subsection \<open>The Block Allocator's backend\<close>

text \<open>
  Modelled from the spec: the backend calls \<^verbatim>\<open>bft_mem_malloc\<close>, \<^verbatim>\<open>bft_mem_free\<close>,
  \<^verbatim>\<open>cs_cuda_mem_malloc_host\<close>, \<^verbatim>\<open>cs_cuda_mem_malloc_managed\<close>,
  \<^verbatim>\<open>cs_cuda_mem_malloc_device\<close>, \<^verbatim>\<open>cs_cuda_mem_free\<close> and \<^verbatim>\<open>cs_cuda_mem_free_host\<close>
  are not part of the sources at hand. Following the spec (section 4.1 and section 7), an
  allocation call that returns gives a valid pointer: non-null and not handed out before;
  a failure is fatal and does not return. The backend is a log of the calls made: the
  allocation calls with the pointer each returned, and the pointers passed to the release
  calls, both in call order (most recent last).
\<close>

datatype alloc_call = Bft_mem_malloc | Mem_malloc_host | Mem_malloc_managed | Mem_malloc_device

datatype free_call = Bft_mem_free | Mem_free | Mem_free_host

record block_allocator =
  next_ptr :: nat
  allocs :: "(alloc_call \<times> ptr) list"
  frees :: "(free_call \<times> ptr) list"

definition backend_malloc :: "alloc_call \<Rightarrow> block_allocator \<Rightarrow> ptr \<times> block_allocator" where
  "backend_malloc c ba =
     (let p = Suc (next_ptr ba)
      in (p, ba\<lparr>next_ptr := p, allocs := allocs ba @ [(c, p)]\<rparr>))"

definition backend_free :: "free_call \<Rightarrow> ptr \<Rightarrow> block_allocator \<Rightarrow> block_allocator" where
  "backend_free c p ba = ba\<lparr>frees := frees ba @ [(c, p)]\<rparr>"

subsection \<open>The pool\<close>

text \<open>
  \<^verbatim>\<open>allocated_blocks_\<close> is an unordered map from pointer to block;
  \<^verbatim>\<open>free_blocks_\<close> maps a mode to a vector of blocks, and \<^verbatim>\<open>free_blocks_[mode]\<close>
  creates an empty vector for a mode not seen before, so it is a total function here.
  The mutex serialises the operations; each operation is one state transformer. The
  debug arguments (\<^verbatim>\<open>var_name\<close>, \<^verbatim>\<open>file_name\<close>, \<^verbatim>\<open>line_num\<close>) only reach the
  allocator's bookkeeping and are left out.
\<close>

record MemoryPool =
  allocated_blocks :: "ptr \<rightharpoonup> cs_mem_block_t"
  free_blocks :: "cs_alloc_mode_t \<Rightarrow> cs_mem_block_t list"
  backend :: block_allocator

definition TTL_MAX :: int where
  "TTL_MAX = 500"

definition adjusted_size :: "size_t \<Rightarrow> size_t" where
  "adjusted_size sz = ((sz + 63) div 64) * 64"

text \<open>\<^verbatim>\<open>MemoryPool::allocate_new_block\<close> (CUDA branch; the SYCL and OpenMP branches
  make the same assignments through their own allocation calls).\<close>

definition allocate_new_block ::
  "size_t \<Rightarrow> cs_alloc_mode_t \<Rightarrow> block_allocator \<Rightarrow> cs_mem_block_t \<times> block_allocator" where
  "allocate_new_block sz md ba =
     (let me = \<lparr>host_ptr = nullptr, device_ptr = nullptr, size_b = sz, mode = md, ttl = 0\<rparr>
      in if mode_rank md < mode_rank CS_ALLOC_HOST_DEVICE_PINNED then
           (let (p, ba') = backend_malloc Bft_mem_malloc ba in (me\<lparr>host_ptr := p\<rparr>, ba'))
         else if md = CS_ALLOC_HOST_DEVICE_PINNED then
           (let (p, ba') = backend_malloc Mem_malloc_host ba in (me\<lparr>host_ptr := p\<rparr>, ba'))
         else if md = CS_ALLOC_HOST_DEVICE_SHARED then
           (let (p, ba') = backend_malloc Mem_malloc_managed ba
            in (me\<lparr>host_ptr := p, device_ptr := p\<rparr>, ba'))
         else if md = CS_ALLOC_DEVICE then
           (let (p, ba') = backend_malloc Mem_malloc_device ba in (me\<lparr>device_ptr := p\<rparr>, ba'))
         else (me, ba))"

text \<open>\<^verbatim>\<open>MemoryPool::free_block\<close> (CUDA branch).\<close>

definition free_block :: "cs_mem_block_t \<Rightarrow> block_allocator \<Rightarrow> block_allocator" where
  "free_block me ba =
     (let ba1 =
        (if mode_rank (mode me) < mode_rank CS_ALLOC_HOST_DEVICE_PINNED then
           backend_free Bft_mem_free (host_ptr me) ba
         else if host_ptr me \<noteq> nullptr then
           (if mode me = CS_ALLOC_HOST_DEVICE_SHARED then backend_free Mem_free (host_ptr me) ba
            else backend_free Mem_free_host (host_ptr me) ba)
         else ba)
      in if device_ptr me \<noteq> nullptr \<and> device_ptr me \<noteq> host_ptr me then
           backend_free Mem_free (device_ptr me) ba1
         else ba1)"

text \<open>
  The first loop of \<^verbatim>\<open>MemoryPool::allocate\<close>: every entry of the mode's free-list is
  aged by one; an entry whose counter reaches \<open>TTL_MAX\<close> is released and erased.
\<close>

fun evict_scan ::
  "cs_mem_block_t list \<Rightarrow> block_allocator \<Rightarrow> cs_mem_block_t list \<times> block_allocator" where
  "evict_scan [] ba = ([], ba)"
| "evict_scan (b # bs) ba =
     (let b' = b\<lparr>ttl := ttl b + 1\<rparr>
      in if ttl b' \<ge> TTL_MAX then evict_scan bs (free_block b' ba)
         else (let (bs', ba') = evict_scan bs ba in (b' # bs', ba')))"

text \<open>
  The second loop: the first entry whose size equals the adjusted size is copied and
  erased. The result is the entry and the list without it.
\<close>

fun take_match ::
  "size_t \<Rightarrow> cs_mem_block_t list \<Rightarrow> (cs_mem_block_t \<times> cs_mem_block_t list) option" where
  "take_match sz [] = None"
| "take_match sz (b # bs) =
     (if size_b b = sz then Some (b, bs)
      else (case take_match sz bs of
              None \<Rightarrow> None
            | Some (me, rest) \<Rightarrow> Some (me, b # rest)))"

text \<open>\<^verbatim>\<open>MemoryPool::allocate\<close>.\<close>

definition allocate ::
  "size_t \<Rightarrow> cs_alloc_mode_t \<Rightarrow> MemoryPool \<Rightarrow> cs_mem_block_t \<times> MemoryPool" where
  "allocate sz md pool =
     (let adj = adjusted_size sz;
          (fb, ba) = evict_scan (free_blocks pool md) (backend pool)
      in case take_match adj fb of
           Some (me, rest) \<Rightarrow>
             (me, pool\<lparr>allocated_blocks := (allocated_blocks pool)(host_ptr me \<mapsto> me),
                       free_blocks := (free_blocks pool)(md := rest),
                       backend := ba\<rparr>)
         | None \<Rightarrow>
             (let (me, ba') = allocate_new_block adj md ba
              in (me, pool\<lparr>allocated_blocks := (allocated_blocks pool)(host_ptr me \<mapsto> me),
                            free_blocks := (free_blocks pool)(md := fb),
                            backend := ba'\<rparr>)))"

text \<open>
  \<^verbatim>\<open>bft_mem_get_block_info_try\<close> belongs to the allocator's bookkeeping, which is not
  part of the sources at hand: its answer is a parameter \<open>info_try\<close> of the two
  operations that consult it, a function from the pointer asked about to the block
  reported. Nothing is assumed of it.
\<close>

text \<open>\<^verbatim>\<open>MemoryPool::get_block_info\<close>.\<close>

definition get_block_info ::
  "(ptr \<Rightarrow> cs_mem_block_t) \<Rightarrow> ptr \<Rightarrow> MemoryPool \<Rightarrow> cs_mem_block_t \<times> MemoryPool" where
  "get_block_info info_try p pool =
     (case allocated_blocks pool p of
        Some me \<Rightarrow> (me, pool)
      | None \<Rightarrow>
          (let me = info_try p
           in if host_ptr me \<noteq> nullptr \<or> device_ptr me \<noteq> nullptr then
                (me, pool\<lparr>allocated_blocks := (allocated_blocks pool)(host_ptr me \<mapsto> me)\<rparr>)
              else (me, pool)))"

text \<open>\<^verbatim>\<open>MemoryPool::deallocate\<close>.\<close>

definition deallocate :: "(ptr \<Rightarrow> cs_mem_block_t) \<Rightarrow> ptr \<Rightarrow> MemoryPool \<Rightarrow> MemoryPool" where
  "deallocate info_try p pool =
     (if p = nullptr then pool
      else (case allocated_blocks pool p of
              Some me0 \<Rightarrow>
                (let me = me0\<lparr>ttl := 0\<rparr>
                 in pool\<lparr>allocated_blocks := (allocated_blocks pool)(p := None),
                         free_blocks := (free_blocks pool)(mode me := free_blocks pool (mode me) @ [me])\<rparr>)
            | None \<Rightarrow>
                (let me = (info_try p)\<lparr>ttl := 0\<rparr>
                 in pool\<lparr>free_blocks := (free_blocks pool)(mode me := free_blocks pool (mode me) @ [me])\<rparr>)))"

text \<open>\<^verbatim>\<open>MemoryPool::insert_block\<close> and \<^verbatim>\<open>MemoryPool::update_block\<close>.\<close>

definition insert_block :: "cs_mem_block_t \<Rightarrow> MemoryPool \<Rightarrow> MemoryPool" where
  "insert_block unmanaged_block pool =
     pool\<lparr>allocated_blocks := (allocated_blocks pool)(host_ptr unmanaged_block \<mapsto> unmanaged_block)\<rparr>"

definition update_block :: "ptr \<Rightarrow> cs_mem_block_t \<Rightarrow> MemoryPool \<Rightarrow> MemoryPool" where
  "update_block p me_new pool = pool\<lparr>allocated_blocks := (allocated_blocks pool)(p \<mapsto> me_new)\<rparr>"

text \<open>The pool as constructed: both maps empty, no backend call made yet.\<close>

definition empty_pool :: MemoryPool where
  "empty_pool =
     \<lparr>allocated_blocks = Map.empty, free_blocks = (\<lambda>_. []),
      backend = \<lparr>next_ptr = 0, allocs = [], frees = []\<rparr>\<rparr>"

subsection \<open>Auxiliary notions for the statements\<close>

text \<open>One acquire cycle seen from a retired block: its counter goes up by one.\<close>

definition age :: "cs_mem_block_t \<Rightarrow> cs_mem_block_t" where
  "age b = b\<lparr>ttl := ttl b + 1\<rparr>"

text \<open>
  Two example answers of the allocator's bookkeeping, used for concrete runs: one that
  knows no pointer and reports a block without pointers, and one that reports every
  pointer asked about as the device pointer of a device-only block.
\<close>

definition no_info :: "ptr \<Rightarrow> cs_mem_block_t" where
  "no_info p =
     \<lparr>host_ptr = nullptr, device_ptr = nullptr, size_b = 0, mode = CS_ALLOC_HOST, ttl = 0\<rparr>"

definition device_only_info :: "ptr \<Rightarrow> cs_mem_block_t" where
  "device_only_info p =
     \<lparr>host_ptr = nullptr, device_ptr = p, size_b = 64, mode = CS_ALLOC_DEVICE, ttl = 0\<rparr>"

text \<open>
  The release calls \<^verbatim>\<open>free_block\<close> makes for a block, in order: the block is
  physically released when these calls have been made.
\<close>

definition release_calls :: "cs_mem_block_t \<Rightarrow> (free_call \<times> ptr) list" where
  "release_calls me = frees (free_block me \<lparr>next_ptr = 0, allocs = [], frees = []\<rparr>)"

text \<open>
  A sequence of acquire calls, each given by its size and mode, run in order; the
  result is the list of the blocks returned and the pool after the last call.
\<close>

fun acquires ::
  "(size_t \<times> cs_alloc_mode_t) list \<Rightarrow> MemoryPool \<Rightarrow> cs_mem_block_t list \<times> MemoryPool" where
  "acquires [] pool = ([], pool)"
| "acquires ((sz, md) # rs) pool =
     (let (me, pool1) = allocate sz md pool;
          (mes, pool2) = acquires rs pool1
      in (me # mes, pool2))"

text \<open>The number of calls of a sequence that ask for mode \<open>md\<close>.\<close>

definition calls_in_mode :: "cs_alloc_mode_t \<Rightarrow> (size_t \<times> cs_alloc_mode_t) list \<Rightarrow> nat" where
  "calls_in_mode md rs = length (filter (\<lambda>r. snd r = md) rs)"

text \<open>
  A pool with two retired host blocks of 64 bytes: two acquires, then both pointers
  released in the order they were handed out.
\<close>

definition two_retired :: MemoryPool where
  "two_retired =
     deallocate no_info 2 (deallocate no_info 1
       (snd (acquires [(64, CS_ALLOC_HOST), (64, CS_ALLOC_HOST)] empty_pool)))"


subsection \<open>Sequences of pool operations\<close>

text \<open>
  The public operations as calls: acquire (\<^verbatim>\<open>allocate\<close>), release (\<^verbatim>\<open>deallocate\<close>),
  lookup (\<^verbatim>\<open>get_block_info\<close>), update (\<^verbatim>\<open>update_block\<close>) and insert_external
  (\<^verbatim>\<open>insert_block\<close>); \<open>calls\<close> runs a list of them in order.
\<close>

datatype pool_call =
    Acquire size_t cs_alloc_mode_t
  | Release ptr
  | Lookup ptr
  | Update ptr cs_mem_block_t
  | Insert_external cs_mem_block_t

fun call :: "(ptr \<Rightarrow> cs_mem_block_t) \<Rightarrow> pool_call \<Rightarrow> MemoryPool \<Rightarrow> MemoryPool" where
  "call info_try (Acquire sz md) pool = snd (allocate sz md pool)"
| "call info_try (Release p) pool = deallocate info_try p pool"
| "call info_try (Lookup p) pool = snd (get_block_info info_try p pool)"
| "call info_try (Update p me) pool = update_block p me pool"
| "call info_try (Insert_external me) pool = insert_block me pool"

fun calls :: "(ptr \<Rightarrow> cs_mem_block_t) \<Rightarrow> pool_call list \<Rightarrow> MemoryPool \<Rightarrow> MemoryPool" where
  "calls info_try [] pool = pool"
| "calls info_try (c # cs) pool = calls info_try cs (call info_try c pool)"

text \<open>
  The pointers checked out (the keys of \<open>allocated_blocks\<close>), the pointers retired (the
  host pointers of the blocks in the free-lists), and ownership exclusivity: no pointer
  is both.
\<close>

definition checked_out :: "MemoryPool \<Rightarrow> ptr set" where
  "checked_out pool = dom (allocated_blocks pool)"

definition retired :: "MemoryPool \<Rightarrow> ptr set" where
  "retired pool = (\<Union>md. host_ptr ` set (free_blocks pool md))"

definition exclusive :: "MemoryPool \<Rightarrow> bool" where
  "exclusive pool \<longleftrightarrow> checked_out pool \<inter> retired pool = {}"

text \<open>
  A call is orderly in a pool when it does not bring a pointer into \<open>allocated_blocks\<close>
  that a free-list holds, nor into a free-list a pointer that the pool holds already:
  \<^item> an acquire that reuses a retired block, or whose fresh block gets a host pointer that
    is not retired (the backend of this model hands out the pointers 1, 2, ... and knows
    nothing of blocks that came from outside; an allocator does not hand out memory that
    is still allocated);
  \<^item> a release of the null pointer, of a checked-out pointer, or of a pointer for which
    the bookkeeping reports a block whose host pointer is neither checked out nor
    retired;
  \<^item> a lookup of a checked-out pointer, or one that the bookkeeping answers with a block
    without pointers (nothing is recorded) or with a block whose host pointer is not
    retired;
  \<^item> an update under a key that is not retired, of a block that has the key as its host
    pointer;
  \<^item> an insert_external of a block whose host pointer is not retired.

  A run is orderly when each call is, in the pool it meets.
\<close>

fun orderly :: "(ptr \<Rightarrow> cs_mem_block_t) \<Rightarrow> MemoryPool \<Rightarrow> pool_call \<Rightarrow> bool" where
  "orderly info_try pool (Acquire sz md) =
     ((\<exists>b \<in> set (free_blocks pool md). ttl b + 1 < TTL_MAX \<and> size_b b = adjusted_size sz)
      \<or> host_ptr (fst (allocate_new_block (adjusted_size sz) md (backend pool))) \<notin> retired pool)"
| "orderly info_try pool (Release p) =
     (p = nullptr \<or> p \<in> checked_out pool
      \<or> (host_ptr (info_try p) \<notin> checked_out pool \<and> host_ptr (info_try p) \<notin> retired pool))"
| "orderly info_try pool (Lookup p) =
     (p \<in> checked_out pool
      \<or> (host_ptr (info_try p) = nullptr \<and> device_ptr (info_try p) = nullptr)
      \<or> host_ptr (info_try p) \<notin> retired pool)"
| "orderly info_try pool (Update p me) = (p \<notin> retired pool \<and> host_ptr me = p)"
| "orderly info_try pool (Insert_external me) = (host_ptr me \<notin> retired pool)"

fun orderly_run :: "(ptr \<Rightarrow> cs_mem_block_t) \<Rightarrow> pool_call list \<Rightarrow> MemoryPool \<Rightarrow> bool" where
  "orderly_run info_try [] pool = True"
| "orderly_run info_try (c # cs) pool =
     (orderly info_try pool c \<and> orderly_run info_try cs (call info_try c pool))"

text \<open>
  The invariant behind exclusivity: a checked-out block is recorded under its own host
  pointer; the host pointers of the retired blocks are not checked out and are pairwise
  different, within a free-list and across free-lists.
\<close>

definition pool_inv :: "MemoryPool \<Rightarrow> bool" where
  "pool_inv pool \<longleftrightarrow>
     (\<forall>k b. allocated_blocks pool k = Some b \<longrightarrow> host_ptr b = k)
   \<and> (\<forall>md. \<forall>b \<in> set (free_blocks pool md). allocated_blocks pool (host_ptr b) = None)
   \<and> (\<forall>md. distinct (map host_ptr (free_blocks pool md)))
   \<and> (\<forall>md md'. md \<noteq> md' \<longrightarrow>
          host_ptr ` set (free_blocks pool md) \<inter> host_ptr ` set (free_blocks pool md') = {})"

text \<open>
  A bookkeeping that reports every pointer asked about as the host pointer of a 64-byte
  host block, as it would for memory that is still allocated.
\<close>

definition host_info :: "ptr \<Rightarrow> cs_mem_block_t" where
  "host_info p =
     \<lparr>host_ptr = p, device_ptr = nullptr, size_b = 64, mode = CS_ALLOC_HOST, ttl = 0\<rparr>"



definition mixed_run :: "pool_call list" where
  "mixed_run =
     [Insert_external \<lparr>host_ptr = 7, device_ptr = 0, size_b = 64, mode = CS_ALLOC_HOST, ttl = 0\<rparr>,
      Lookup 9,
      Acquire 64 CS_ALLOC_HOST,
      Release 7,
      Release 11,
      Update 9 \<lparr>host_ptr = 9, device_ptr = 0, size_b = 128, mode = CS_ALLOC_HOST, ttl = 0\<rparr>,
      Acquire 100 CS_ALLOC_DEVICE,
      Release 0,
      Acquire 64 CS_ALLOC_HOST]"

section \<open>The extended-neighborhood connectivity builder (cs_ext_neighborhood.c)\<close>

subsection \<open>The mesh\<close>

text \<open>
  The fields of \<^verbatim>\<open>cs_mesh_t\<close> the connectivity functions read. Arrays of
  \<^verbatim>\<open>cs_int_t\<close> are lists of integers, indexed from 0 as in C; element numbers stored
  in them are 1-based. The sizes are natural numbers. A pointer that may be \<^verbatim>\<open>NULL\<close>
  (the extended cell to cells connectivity) is an optional list.
\<close>

datatype cs_halo_type_t = CS_HALO_STANDARD | CS_HALO_EXTENDED

record cs_mesh_t =
  n_cells :: nat
  n_i_faces :: nat
  n_vertices :: nat
  i_face_cells :: "int list"
  i_face_vtx_idx :: "int list"
  i_face_vtx_lst :: "int list"
  halo_type :: cs_halo_type_t
  cell_cells_idx :: "int list option"
  cell_cells_lst :: "int list option"

subsection \<open>Cell to internal faces connectivity\<close>

text \<open>
  \<^verbatim>\<open>_get_cell_i_faces_connectivity\<close>. The first loop counts, for face \<open>i\<close>, one entry
  for each adjoining cell whose index is below \<open>n_cells\<close>, in slot \<open>j + 1\<close> of the index.
\<close>

definition count_faces_step :: "cs_mesh_t \<Rightarrow> nat \<Rightarrow> int list \<Rightarrow> int list" where
  "count_faces_step mesh i cell_faces_idx =
     (let j1 = i_face_cells mesh ! (i * 2) - 1;
          j2 = i_face_cells mesh ! (i * 2 + 1) - 1;
          idx1 = (if j1 < int (n_cells mesh)
                  then cell_faces_idx[nat (j1 + 1) := cell_faces_idx ! nat (j1 + 1) + 1]
                  else cell_faces_idx)
      in if j2 < int (n_cells mesh)
         then idx1[nat (j2 + 1) := idx1 ! nat (j2 + 1) + 1]
         else idx1)"

text \<open>The position index: slot 0 is set to 1, then the running sum is taken.\<close>

definition build_position_index :: "nat \<Rightarrow> int list \<Rightarrow> int list" where
  "build_position_index n cell_faces_idx =
     fold (\<lambda>j idx. idx[j + 1 := idx ! j + idx ! (j + 1)]) [0..<n] (cell_faces_idx[0 := 1])"

text \<open>
  The second loop writes face \<open>i + 1\<close> into the row of the first cell and \<open>-(i + 1)\<close>
  into the row of the second cell, each at the cell's write cursor.
\<close>

definition fill_faces_step ::
  "cs_mesh_t \<Rightarrow> int list \<Rightarrow> nat \<Rightarrow> int list \<times> int list \<Rightarrow> int list \<times> int list" where
  "fill_faces_step mesh cell_faces_idx i s =
     (let (cell_faces_lst, cell_faces_count) = s;
          j1 = i_face_cells mesh ! (i * 2) - 1;
          j2 = i_face_cells mesh ! (i * 2 + 1) - 1;
          (lst1, count1) =
            (if j1 < int (n_cells mesh)
             then (cell_faces_lst[nat (cell_faces_idx ! nat j1 + cell_faces_count ! nat j1 - 1) := int i + 1],
                   cell_faces_count[nat j1 := cell_faces_count ! nat j1 + 1])
             else (cell_faces_lst, cell_faces_count))
      in if j2 < int (n_cells mesh)
         then (lst1[nat (cell_faces_idx ! nat j2 + count1 ! nat j2 - 1) := - (int i + 1)],
               count1[nat j2 := count1 ! nat j2 + 1])
         else (lst1, count1))"

text \<open>
  The whole function; it returns the index and the list. The list is allocated with
  \<open>cell_faces_idx[n_cells] - 1\<close> slots, whose initial content (unspecified in C) is 0 here.
\<close>

definition get_cell_i_faces_connectivity :: "cs_mesh_t \<Rightarrow> int list \<times> int list" where
  "get_cell_i_faces_connectivity mesh =
     (let idx0 = replicate (n_cells mesh + 1) 0;
          idx1 = fold (count_faces_step mesh) [0..<n_i_faces mesh] idx0;
          cell_faces_idx = build_position_index (n_cells mesh) idx1;
          lst0 = replicate (nat (cell_faces_idx ! n_cells mesh - 1)) 0;
          count0 = replicate (n_cells mesh) 0;
          (cell_faces_lst, cell_faces_count) =
            fold (fill_faces_step mesh cell_faces_idx) [0..<n_i_faces mesh] (lst0, count0)
      in (cell_faces_idx, cell_faces_lst))"

subsection \<open>Rows of an index and list pair, and the events of a two-pass build\<close>

text \<open>
  Row \<open>c\<close> of a connectivity whose index is 1-based (\<open>idx[0] = 1\<close>), and of one whose
  index is 0-based (\<open>idx[0] = 0\<close>).
\<close>

definition row1 :: "int list \<Rightarrow> int list \<Rightarrow> nat \<Rightarrow> int list" where
  "row1 idx lst c = map (\<lambda>k. lst ! k) [nat (idx ! c - 1)..<nat (idx ! (c + 1) - 1)]"

definition row0 :: "int list \<Rightarrow> int list \<Rightarrow> nat \<Rightarrow> int list" where
  "row0 idx lst c = map (\<lambda>k. lst ! k) [nat (idx ! c)..<nat (idx ! (c + 1))]"

text \<open>
  A two-pass build handles a sequence of events, each a row and the entry to store in
  it. \<open>cnt c es\<close> is the number of events for row \<open>c\<close> and \<open>entries c es\<close> their entries in
  order. One event of the count pass bumps slot \<open>c + 1\<close> of the index; one event of the
  fill pass stores the entry at the row's cursor and advances the cursor.
\<close>

definition cnt :: "nat \<Rightarrow> (nat \<times> int) list \<Rightarrow> nat" where
  "cnt c es = length (filter (\<lambda>e. fst e = c) es)"

definition entries :: "nat \<Rightarrow> (nat \<times> int) list \<Rightarrow> int list" where
  "entries c es = map snd (filter (\<lambda>e. fst e = c) es)"

definition count_event :: "nat \<times> int \<Rightarrow> int list \<Rightarrow> int list" where
  "count_event e idx = idx[fst e + 1 := idx ! (fst e + 1) + 1]"

definition fill_event :: "(nat \<Rightarrow> int) \<Rightarrow> nat \<times> int \<Rightarrow> int list \<times> int list \<Rightarrow> int list \<times> int list" where
  "fill_event start e s =
     ((fst s)[nat (start (fst e) + snd s ! fst e) := snd e], (snd s)[fst e := snd s ! fst e + 1])"

text \<open>
  The events of the cell to faces build, face by face: the first cell's entry, then the
  second cell's, each only when the cell's index is below \<open>n_cells\<close>.
\<close>

definition face_events :: "cs_mesh_t \<Rightarrow> nat \<Rightarrow> (nat \<times> int) list" where
  "face_events mesh i =
     (let j1 = i_face_cells mesh ! (i * 2) - 1;
          j2 = i_face_cells mesh ! (i * 2 + 1) - 1
      in (if j1 < int (n_cells mesh) then [(nat j1, int i + 1)] else [])
       @ (if j2 < int (n_cells mesh) then [(nat j2, - (int i + 1))] else []))"

text \<open>
  What the row of cell \<open>c\<close> should hold: going through the faces in order, \<open>i + 1\<close>
  when \<open>c\<close> is the first cell of face \<open>i\<close>, then \<open>-(i + 1)\<close> when it is the second.
\<close>

definition cell_face_entries :: "cs_mesh_t \<Rightarrow> nat \<Rightarrow> int list" where
  "cell_face_entries mesh c =
     concat (map (\<lambda>i. (if i_face_cells mesh ! (i * 2) - 1 = int c then [int i + 1] else [])
                     @ (if i_face_cells mesh ! (i * 2 + 1) - 1 = int c then [- (int i + 1)] else []))
               [0..<n_i_faces mesh])"

text \<open>A mesh of one cell and one internal face whose second cell (number 2) is a ghost.\<close>

definition ghost_face_mesh :: cs_mesh_t where
  "ghost_face_mesh =
     \<lparr>n_cells = 1, n_i_faces = 1, n_vertices = 0, i_face_cells = [1, 2],
      i_face_vtx_idx = [1, 1], i_face_vtx_lst = [], halo_type = CS_HALO_STANDARD,
      cell_cells_idx = None, cell_cells_lst = None\<rparr>"

text \<open>
  The face to cells array is well-formed when it has two entries per internal face and
  every entry is a cell number, that is at least 1.
\<close>

definition cells_numbered :: "cs_mesh_t \<Rightarrow> bool" where
  "cells_numbered mesh \<longleftrightarrow>
     length (i_face_cells mesh) = 2 * n_i_faces mesh \<and> (\<forall>c \<in> set (i_face_cells mesh). 1 \<le> c)"

text \<open>
  A mesh of two cells and two internal faces: face 1 joins cells 1 and 2, face 2 joins
  cell 2 and the ghost cell 3.
\<close>

definition three_cell_mesh :: cs_mesh_t where
  "three_cell_mesh =
     \<lparr>n_cells = 2, n_i_faces = 2, n_vertices = 0, i_face_cells = [1, 2, 2, 3],
      i_face_vtx_idx = [1, 1, 1], i_face_vtx_lst = [], halo_type = CS_HALO_STANDARD,
      cell_cells_idx = None, cell_cells_lst = None\<rparr>"

subsection \<open>Reversal of the ghost cell to vertices connectivity\<close>

text \<open>
  The fields of \<^verbatim>\<open>cs_halo_t\<close> the reversal reads: the number of ghost cells per
  halo type (an array indexed by the enumeration) and the per-rank index.
\<close>

record cs_halo_t =
  n_elts :: "cs_halo_type_t \<Rightarrow> nat"
  index :: "int list"

text \<open>
  Both passes start by choosing the ghost cells to go through: all of them for
  \<open>rank_id = -1\<close>, the slice of one rank otherwise.
\<close>

definition halo_range :: "cs_halo_t \<Rightarrow> int \<Rightarrow> nat \<times> nat" where
  "halo_range halo rank_id =
     (if rank_id = - 1 then (0, n_elts halo CS_HALO_EXTENDED)
      else (nat (index halo ! nat (2 * rank_id)), nat (index halo ! nat (2 * rank_id + 1))))"

text \<open>
  \<^verbatim>\<open>_reverse_connectivity_idx\<close>: the body of the inner loop for ghost cell \<open>gc_id\<close> and
  position \<open>j\<close> of its row, acting on the index under construction and the checker.
\<close>

definition reverse_idx_step ::
  "int list \<Rightarrow> nat \<Rightarrow> nat \<Rightarrow> int list \<times> int list \<Rightarrow> int list \<times> int list" where
  "reverse_idx_step gcell_vtx_lst gc_id j s =
     (let (vtx_gcells_idx, checker) = s;
          vtx_id = gcell_vtx_lst ! j - 1
      in if checker ! nat vtx_id \<noteq> int gc_id
         then (vtx_gcells_idx[nat (vtx_id + 1) := vtx_gcells_idx ! nat (vtx_id + 1) + 1],
               checker[nat vtx_id := int gc_id])
         else s)"

text \<open>The function returns the index; the checker is scratch space, set up afresh.\<close>

definition reverse_connectivity_idx ::
  "cs_halo_t \<Rightarrow> nat \<Rightarrow> int \<Rightarrow> int list \<Rightarrow> int list \<Rightarrow> int list" where
  "reverse_connectivity_idx halo n_vtx rank_id gcell_vtx_idx gcell_vtx_lst =
     (let idx0 = replicate (n_vtx + 1) 0;
          checker0 = replicate n_vtx (- 1);
          (start_idx, end_idx) = halo_range halo rank_id;
          (idx1, checker) =
            fold (\<lambda>gc_id. fold (reverse_idx_step gcell_vtx_lst gc_id)
                           [nat (gcell_vtx_idx ! gc_id)..<nat (gcell_vtx_idx ! (gc_id + 1))])
              [start_idx..<end_idx] (idx0, checker0)
      in fold (\<lambda>i idx. idx[i + 1 := idx ! (i + 1) + idx ! i]) [0..<n_vtx] idx1)"

text \<open>
  \<^verbatim>\<open>_reverse_connectivity_lst\<close>: the body of the inner loop, acting on the list under
  construction with its per-vertex counters, and the checker.
\<close>

definition reverse_lst_step ::
  "int list \<Rightarrow> int list \<Rightarrow> nat \<Rightarrow> nat \<Rightarrow>
   (int list \<times> int list) \<times> int list \<Rightarrow> (int list \<times> int list) \<times> int list" where
  "reverse_lst_step gcell_vtx_lst vtx_gcells_idx gc_id j s =
     (let ((vtx_gcells_lst, counter), checker) = s;
          vtx_id = gcell_vtx_lst ! j - 1
      in if checker ! nat vtx_id \<noteq> int gc_id
         then (let shift = vtx_gcells_idx ! nat vtx_id + counter ! nat vtx_id
               in ((vtx_gcells_lst[nat shift := int gc_id],
                    counter[nat vtx_id := counter ! nat vtx_id + 1]),
                   checker[nat vtx_id := int gc_id]))
         else s)"

definition reverse_connectivity_lst ::
  "cs_halo_t \<Rightarrow> nat \<Rightarrow> int \<Rightarrow> int list \<Rightarrow> int list \<Rightarrow> int list \<Rightarrow> int list \<Rightarrow> int list" where
  "reverse_connectivity_lst halo n_vtx rank_id gcell_vtx_idx gcell_vtx_lst
       vtx_gcells_idx vtx_gcells_lst =
     (let counter0 = replicate n_vtx 0;
          checker0 = replicate n_vtx (- 1);
          (start_idx, end_idx) = halo_range halo rank_id
      in fst (fst
           (fold (\<lambda>gc_id. fold (reverse_lst_step gcell_vtx_lst vtx_gcells_idx gc_id)
                           [nat (gcell_vtx_idx ! gc_id)..<nat (gcell_vtx_idx ! (gc_id + 1))])
              [start_idx..<end_idx] ((vtx_gcells_lst, counter0), checker0))))"

text \<open>
  \<^verbatim>\<open>_create_vtx_gcells_connect\<close>: the index pass (with its prefix sum), the
  allocation of the list with \<open>vtx_gcells_idx[n_vertices]\<close> slots (initial content 0
  here), and the list pass, all for \<open>rank_id = -1\<close>.
\<close>

definition create_vtx_gcells_connect ::
  "cs_halo_t \<Rightarrow> nat \<Rightarrow> int list \<Rightarrow> int list \<Rightarrow> int list \<times> int list" where
  "create_vtx_gcells_connect halo n_vtx gcells_vtx_idx gcells_vtx_lst =
     (let vtx_gcells_idx =
            reverse_connectivity_idx halo n_vtx (- 1) gcells_vtx_idx gcells_vtx_lst;
          lst0 = replicate (nat (vtx_gcells_idx ! n_vtx)) 0;
          vtx_gcells_lst =
            reverse_connectivity_lst halo n_vtx (- 1) gcells_vtx_idx gcells_vtx_lst
              vtx_gcells_idx lst0
      in (vtx_gcells_idx, vtx_gcells_lst))"

text \<open>
  The forward adjacency: the vertices (0-based) listed in the row of ghost cell \<open>gc_id\<close>,
  in the order of the row, repetitions included. It is well-formed when every entry of
  the rows gone through is a vertex number between 1 and the number of vertices \<open>n_vtx\<close>.
\<close>

definition gcell_vertices :: "int list \<Rightarrow> int list \<Rightarrow> nat \<Rightarrow> nat list" where
  "gcell_vertices gcell_vtx_idx gcell_vtx_lst gc_id =
     map (\<lambda>j. nat (gcell_vtx_lst ! j - 1))
       [nat (gcell_vtx_idx ! gc_id)..<nat (gcell_vtx_idx ! (gc_id + 1))]"

definition gcell_rows_ok :: "nat \<Rightarrow> nat \<Rightarrow> int list \<Rightarrow> int list \<Rightarrow> bool" where
  "gcell_rows_ok n_gcells n_vtx gcell_vtx_idx gcell_vtx_lst \<longleftrightarrow>
     (\<forall>gc_id \<in> set [0..<n_gcells].
        \<forall>j \<in> set [nat (gcell_vtx_idx ! gc_id)..<nat (gcell_vtx_idx ! (gc_id + 1))].
          1 \<le> gcell_vtx_lst ! j \<and> gcell_vtx_lst ! j \<le> int n_vtx)"

text \<open>
  One step of a pass guarded by the checker: the event for vertex \<open>v\<close> and ghost cell
  \<open>gc_id\<close> is handled only when the checker does not hold \<open>gc_id\<close> for \<open>v\<close> yet. The vertices
  of a row that pass the guard are its first occurrences.
\<close>

definition checked_event ::
  "(nat \<times> int \<Rightarrow> 's \<Rightarrow> 's) \<Rightarrow> nat \<Rightarrow> nat \<Rightarrow> 's \<times> int list \<Rightarrow> 's \<times> int list" where
  "checked_event f gc_id v s =
     (if snd s ! v \<noteq> int gc_id then (f (v, int gc_id) (fst s), (snd s)[v := int gc_id]) else s)"

fun new_targets :: "nat list \<Rightarrow> nat list \<Rightarrow> nat list" where
  "new_targets seen [] = []"
| "new_targets seen (v # vs) =
     (if v \<in> set seen then new_targets seen vs else v # new_targets (v # seen) vs)"

text \<open>A halo with two ghost cells, all of them in the extended halo.\<close>

definition two_gcells_halo :: cs_halo_t where
  "two_gcells_halo = \<lparr>n_elts = (\<lambda>t. case t of CS_HALO_STANDARD \<Rightarrow> 0 | CS_HALO_EXTENDED \<Rightarrow> 2),
                      index = [0, 0, 0, 2]\<rparr>"

subsection \<open>Vertex to cells connectivity\<close>

text \<open>
  The positions of a row in a list whose index is 1-based: the C loops
  \<^verbatim>\<open>for (i = idx[r] - 1; i < idx[r+1] - 1; i++)\<close>.
\<close>

definition range1 :: "int list \<Rightarrow> nat \<Rightarrow> nat list" where
  "range1 idx r = [nat (idx ! r - 1)..<nat (idx ! (r + 1) - 1)]"

text \<open>
  \<^verbatim>\<open>_create_vtx_cells_connect\<close>, first half: the vertex to faces connectivity. The
  count pass, the prefix sum, the fill pass (which uses the index itself as write
  cursor), and the shift that puts the index back.
\<close>

definition vtx_faces_count ::
  "cs_mesh_t \<Rightarrow> int list \<Rightarrow> int list" where
  "vtx_faces_count mesh vtx_faces_idx =
     fold (\<lambda>face_id.
             fold (\<lambda>i idx. let vtx_id = i_face_vtx_lst mesh ! i - 1
                            in idx[nat (vtx_id + 1) := idx ! nat (vtx_id + 1) + 1])
                  (range1 (i_face_vtx_idx mesh) face_id))
       [0..<n_i_faces mesh] vtx_faces_idx"

definition vtx_faces_fill ::
  "cs_mesh_t \<Rightarrow> int list \<times> int list \<Rightarrow> int list \<times> int list" where
  "vtx_faces_fill mesh s =
     fold (\<lambda>face_id.
             fold (\<lambda>i (vtx_faces_lst, vtx_faces_idx).
                     let vtx_id = i_face_vtx_lst mesh ! i - 1
                     in (vtx_faces_lst[nat (vtx_faces_idx ! nat vtx_id - 1) := int face_id + 1],
                         vtx_faces_idx[nat vtx_id := vtx_faces_idx ! nat vtx_id + 1]))
                  (range1 (i_face_vtx_idx mesh) face_id))
       [0..<n_i_faces mesh] s"

definition vtx_faces_connect :: "cs_mesh_t \<Rightarrow> int list \<times> int list" where
  "vtx_faces_connect mesh =
     (let idx0 = replicate (n_vertices mesh + 1) 0;
          idx1 = vtx_faces_count mesh idx0;
          idx2 = fold (\<lambda>vtx_id idx. idx[vtx_id + 1 := idx ! (vtx_id + 1) + idx ! vtx_id])
                   [0..<n_vertices mesh] (idx1[0 := 1]);
          lst0 = replicate (nat (idx2 ! n_vertices mesh - 1)) 0;
          (vtx_faces_lst, idx3) = vtx_faces_fill mesh (lst0, idx2);
          idx4 = fold (\<lambda>vtx_id idx. idx[vtx_id := idx ! (vtx_id - 1)])
                   (rev [1..<n_vertices mesh + 1]) idx3
      in (idx4[0 := 1], vtx_faces_lst))"

text \<open>
  Second half: the vertex to cells connectivity. The search loop looks for the cell
  number among the entries the current vertex already has, from position \<open>idx\<close> up to
  the current size of the list.
\<close>

function already_seen :: "int \<Rightarrow> int list \<Rightarrow> nat \<Rightarrow> nat \<Rightarrow> bool" where
  "already_seen cell_num vtx_cells_lst idx vtx_cells_connect_size =
     (if idx < vtx_cells_connect_size
      then (if cell_num = vtx_cells_lst ! idx then True
            else already_seen cell_num vtx_cells_lst (idx + 1) vtx_cells_connect_size)
      else False)"
  by pat_completeness auto

termination
  by (relation "measure (\<lambda>(cell_num, lst, idx, sz). sz - idx)") auto

text \<open>
  The list grows by one entry when the cell is new (the reallocation keeps the content);
  its length here is \<^verbatim>\<open>vtx_cells_connect_size\<close>.
\<close>

definition vtx_cells_add ::
  "cs_mesh_t \<Rightarrow> nat \<Rightarrow> int \<Rightarrow> nat \<Rightarrow> int list \<times> int list \<Rightarrow> int list \<times> int list" where
  "vtx_cells_add mesh vtx_id face_id j s =
     (let (vtx_cells_idx, vtx_cells_lst) = s;
          cell_num = i_face_cells mesh ! (2 * nat face_id + j)
      in if already_seen cell_num vtx_cells_lst (nat (vtx_cells_idx ! vtx_id - 1))
              (length vtx_cells_lst)
         then s
         else (vtx_cells_idx, vtx_cells_lst @ [cell_num]))"

definition create_vtx_cells_connect :: "cs_mesh_t \<Rightarrow> int list \<times> int list" where
  "create_vtx_cells_connect mesh =
     (let (vtx_faces_idx, vtx_faces_lst) = vtx_faces_connect mesh;
          idx0 = (replicate (n_vertices mesh + 1) 0)[0 := 1]
      in fold (\<lambda>vtx_id s.
                 let (vtx_cells_idx, vtx_cells_lst) =
                       fold (\<lambda>i. let face_id = vtx_faces_lst ! i - 1
                                  in fold (vtx_cells_add mesh vtx_id face_id) [0..<2])
                            (range1 vtx_faces_idx vtx_id) s
                 in (vtx_cells_idx[vtx_id + 1 := int (length vtx_cells_lst) + 1], vtx_cells_lst))
           [0..<n_vertices mesh] (idx0, []))"

subsection \<open>The filter of the extended neighborhood\<close>

text \<open>
  \<^verbatim>\<open>_tag_cells\<close>: for the cell \<open>cell_id\<close> of face \<open>face_id\<close>, every entry of the cell's
  extended row that is still positive and equals a cell listed for a vertex of the face
  is made negative. The innermost statement first, then the three nested loops.
\<close>

definition tag_entry :: "int list \<Rightarrow> int \<Rightarrow> nat \<Rightarrow> nat \<Rightarrow> int list \<Rightarrow> int list" where
  "tag_entry vtx_cells_lst ext_cell_num i k cell_cells_lst1 =
     (let cell_num = vtx_cells_lst ! k
      in if cell_num = ext_cell_num \<and> cell_cells_lst1 ! i > 0
         then cell_cells_lst1[i := - cell_cells_lst1 ! i]
         else cell_cells_lst1)"

definition tag_cells ::
  "nat \<Rightarrow> int \<Rightarrow> cs_mesh_t \<Rightarrow> int list \<Rightarrow> int list \<Rightarrow> int list \<Rightarrow> int list \<Rightarrow> int list" where
  "tag_cells face_id cell_id mesh vtx_cells_idx vtx_cells_lst cell_cells_idx1 cell_cells_lst1 =
     (if cell_id < int (n_cells mesh)
      then fold (\<lambda>i lst.
                   let ext_cell_num = lst ! i
                   in if ext_cell_num > 0
                      then fold (\<lambda>j. let vtx_id = i_face_vtx_lst mesh ! j - 1
                                      in fold (tag_entry vtx_cells_lst ext_cell_num i)
                                              (range1 vtx_cells_idx (nat vtx_id)))
                                (range1 (i_face_vtx_idx mesh) face_id) lst
                      else lst)
             (range1 cell_cells_idx1 (nat cell_id)) cell_cells_lst1
      else cell_cells_lst1)"

text \<open>
  The floating-point evaluation of the non-orthogonality cosine of a face (from the cell
  centers and the face normal) and of the threshold \<open>cos(anomax)\<close> is not modelled:
  the cosine of each face, \<open>cos_ij_fn\<close>, and the threshold, \<open>cos_ij_fn_min\<close>, are
  parameters. The loop over the faces tags the extended rows of both cells of every face
  whose cosine is at or below the threshold.
\<close>

definition tag_faces ::
  "(nat \<Rightarrow> real) \<Rightarrow> real \<Rightarrow> cs_mesh_t \<Rightarrow> int list \<Rightarrow> int list \<Rightarrow> int list \<Rightarrow> int list \<Rightarrow> int list" where
  "tag_faces cos_ij_fn cos_ij_fn_min mesh vtx_cells_idx vtx_cells_lst cell_cells_idx1 cell_cells_lst1 =
     fold (\<lambda>face_id lst.
             let cell_i = i_face_cells mesh ! (2 * face_id) - 1;
                 cell_j = i_face_cells mesh ! (2 * face_id + 1) - 1
             in if cos_ij_fn face_id \<le> cos_ij_fn_min
                then tag_cells face_id cell_j mesh vtx_cells_idx vtx_cells_lst cell_cells_idx1
                       (tag_cells face_id cell_i mesh vtx_cells_idx vtx_cells_lst cell_cells_idx1 lst)
                else lst)
       [0..<n_i_faces mesh] cell_cells_lst1"

text \<open>The change of all signs, so that the entries to eliminate are the negative ones.\<close>

definition change_signs :: "int list \<Rightarrow> int list \<Rightarrow> nat \<Rightarrow> int list" where
  "change_signs cell_cells_idx1 cell_cells_lst1 n =
     fold (\<lambda>i lst. lst[i := - lst ! i]) [0..<nat (cell_cells_idx1 ! n - 1)] cell_cells_lst1"

text \<open>
  The deletion of the negative entries, in place: the variables of the loop as a record,
  the body of the inner loop for position \<open>i\<close>, and the body of the outer loop for
  \<open>cell_id\<close>.
\<close>

record deletion =
  del_lst :: "int list"
  del_idx :: "int list"
  new_idx :: int
  n_deleted_cells :: int
  previous_idx :: int

definition delete_entry :: "nat \<Rightarrow> deletion \<Rightarrow> deletion" where
  "delete_entry i d =
     (if del_lst d ! i > 0
      then d\<lparr>new_idx := new_idx d + 1,
             del_lst := (del_lst d)[nat (new_idx d + 1) := del_lst d ! i]\<rparr>
      else d\<lparr>n_deleted_cells := n_deleted_cells d + 1\<rparr>)"

definition delete_row :: "nat \<Rightarrow> deletion \<Rightarrow> deletion" where
  "delete_row cell_id d =
     (let d1 = fold delete_entry
                 [nat (previous_idx d)..<nat (del_idx d ! (cell_id + 1) - 1)] d
      in d1\<lparr>previous_idx := del_idx d1 ! (cell_id + 1) - 1,
             del_idx := (del_idx d1)[cell_id + 1 :=
                           del_idx d1 ! (cell_id + 1) - n_deleted_cells d1]\<rparr>)"

text \<open>
  \<^verbatim>\<open>redvse\<close>. The static flag \<^verbatim>\<open>_first_call\<close> is part of the state, next to the
  mesh. Only the first call does anything, and only when the extended connectivity is
  there and the halo is not the standard one; it then rebuilds the vertex to cells
  connectivity, tags, changes the signs, deletes, and shrinks the list to
  \<open>cell_cells_idx[n_cells] - 1\<close> entries.
\<close>

definition redvse :: "(nat \<Rightarrow> real) \<Rightarrow> real \<Rightarrow> int \<times> cs_mesh_t \<Rightarrow> int \<times> cs_mesh_t" where
  "redvse cos_ij_fn cos_ij_fn_min s =
     (let (first_call, mesh) = s
      in if first_call = 0
         then (case (cell_cells_lst mesh, cell_cells_idx mesh) of
                 (Some lst0, Some idx0) \<Rightarrow>
                   if halo_type mesh = CS_HALO_STANDARD then (1, mesh)
                   else
                     (let (vtx_cells_idx, vtx_cells_lst) = create_vtx_cells_connect mesh;
                          lst1 = tag_faces cos_ij_fn cos_ij_fn_min mesh vtx_cells_idx vtx_cells_lst
                                   idx0 lst0;
                          lst2 = change_signs idx0 lst1 (n_cells mesh);
                          d = fold delete_row [0..<n_cells mesh]
                                \<lparr>del_lst = lst2, del_idx = idx0, new_idx = - 1,
                                  n_deleted_cells = 0, previous_idx = 0\<rparr>
                      in (1, mesh\<lparr>cell_cells_idx := Some (del_idx d),
                                  cell_cells_lst :=
                                    Some (take (nat (del_idx d ! n_cells mesh - 1)) (del_lst d))\<rparr>))
               | _ \<Rightarrow> (1, mesh))
         else s)"

text \<open>
  The extended connectivity is well-formed when its index has one slot per cell plus
  one, starts at 1, does not decrease and ends at the list's length plus 1, and every
  entry of the list is a cell number (positive).
\<close>

definition ext_rows_ok :: "nat \<Rightarrow> int list \<Rightarrow> int list \<Rightarrow> bool" where
  "ext_rows_ok n idx lst \<longleftrightarrow>
     length idx = n + 1 \<and> idx ! 0 = 1
   \<and> (\<forall>c \<in> set [0..<n]. idx ! c \<le> idx ! (c + 1))
   \<and> int (length lst) = idx ! n - 1
   \<and> (\<forall>x \<in> set lst. 0 < x)"

text \<open>
  The admissibility of an entry \<open>e\<close> of the extended row of cell \<open>c\<close>, relative to a
  vertex to cells connectivity given by its index and list: some internal face has \<open>c\<close>
  as one of its two cells, has its cosine at or below the threshold, and has a vertex
  whose row in that connectivity lists \<open>e\<close>.
\<close>

definition face_touches ::
  "cs_mesh_t \<Rightarrow> int list \<Rightarrow> int list \<Rightarrow> nat \<Rightarrow> int \<Rightarrow> bool" where
  "face_touches mesh vtx_cells_idx vtx_cells_lst face_id e \<longleftrightarrow>
     (\<exists>j \<in> set (range1 (i_face_vtx_idx mesh) face_id).
        \<exists>k \<in> set (range1 vtx_cells_idx (nat (i_face_vtx_lst mesh ! j - 1))).
          vtx_cells_lst ! k = e)"

definition admissible_by ::
  "(nat \<Rightarrow> real) \<Rightarrow> real \<Rightarrow> cs_mesh_t \<Rightarrow> int list \<Rightarrow> int list \<Rightarrow> nat \<Rightarrow> int \<Rightarrow> bool" where
  "admissible_by cos_ij_fn cos_ij_fn_min mesh vtx_cells_idx vtx_cells_lst c e \<longleftrightarrow>
     (\<exists>face_id \<in> set [0..<n_i_faces mesh].
        (i_face_cells mesh ! (2 * face_id) - 1 = int c
           \<or> i_face_cells mesh ! (2 * face_id + 1) - 1 = int c)
      \<and> cos_ij_fn face_id \<le> cos_ij_fn_min
      \<and> face_touches mesh vtx_cells_idx vtx_cells_lst face_id e)"

text \<open>
  The same in terms of the mesh alone. The vertices of an internal face are the entries
  of its row in the face to vertices connectivity, which is well-formed when they are
  vertex numbers, between 1 and the number of vertices. The cells of a vertex are the
  two cells of every internal face that has the vertex. A cell \<open>e\<close> shares a vertex with
  a face when it is a cell of one of the face's vertices; an entry \<open>e\<close> of the row of
  cell \<open>c\<close> is admissible when some internal face has \<open>c\<close> as one of its two cells,
  has its cosine at or below the threshold, and shares a vertex with \<open>e\<close>.
\<close>

definition face_vertices :: "cs_mesh_t \<Rightarrow> nat \<Rightarrow> int list" where
  "face_vertices mesh face_id = row1 (i_face_vtx_idx mesh) (i_face_vtx_lst mesh) face_id"

definition face_vertices_ok :: "cs_mesh_t \<Rightarrow> bool" where
  "face_vertices_ok mesh \<longleftrightarrow>
     (\<forall>face_id \<in> set [0..<n_i_faces mesh]. \<forall>v \<in> set (face_vertices mesh face_id).
        1 \<le> v \<and> v \<le> int (n_vertices mesh))"

definition vertex_cells :: "cs_mesh_t \<Rightarrow> int \<Rightarrow> int list" where
  "vertex_cells mesh vtx =
     concat (map (\<lambda>face_id. if vtx \<in> set (face_vertices mesh face_id)
                            then [i_face_cells mesh ! (2 * face_id), i_face_cells mesh ! (2 * face_id + 1)]
                            else [])
               [0..<n_i_faces mesh])"

definition shares_vertex :: "cs_mesh_t \<Rightarrow> nat \<Rightarrow> int \<Rightarrow> bool" where
  "shares_vertex mesh face_id e \<longleftrightarrow>
     (\<exists>vtx \<in> set (face_vertices mesh face_id). e \<in> set (vertex_cells mesh vtx))"

definition admissible :: "(nat \<Rightarrow> real) \<Rightarrow> real \<Rightarrow> cs_mesh_t \<Rightarrow> nat \<Rightarrow> int \<Rightarrow> bool" where
  "admissible cos_ij_fn cos_ij_fn_min mesh c e \<longleftrightarrow>
     (\<exists>face_id \<in> set [0..<n_i_faces mesh].
        (i_face_cells mesh ! (2 * face_id) - 1 = int c
           \<or> i_face_cells mesh ! (2 * face_id + 1) - 1 = int c)
      \<and> cos_ij_fn face_id \<le> cos_ij_fn_min
      \<and> shares_vertex mesh face_id e)"

subsection \<open>Auxiliary notions for the filter\<close>

text \<open>The two inner loops of \<^verbatim>\<open>_tag_cells\<close> for one position \<open>i\<close> of the row.\<close>

definition tag_position :: "cs_mesh_t \<Rightarrow> int list \<Rightarrow> int list \<Rightarrow> nat \<Rightarrow> nat \<Rightarrow> int list \<Rightarrow> int list" where
  "tag_position mesh vci vcl f i lst =
     (let ext_cell_num = lst ! i
      in if ext_cell_num > 0
         then fold (\<lambda>j. let vtx_id = i_face_vtx_lst mesh ! j - 1
                         in fold (tag_entry vcl ext_cell_num i) (range1 vci (nat vtx_id)))
                   (range1 (i_face_vtx_idx mesh) f) lst
         else lst)"

text \<open>Position \<open>p\<close> lies in the extended row of the cell with (0-based) index \<open>cell\<close>.\<close>

definition in_row :: "nat \<Rightarrow> int list \<Rightarrow> int \<Rightarrow> nat \<Rightarrow> bool" where
  "in_row n idx cell p \<longleftrightarrow> cell < int n \<and> p \<in> set (range1 idx (nat cell))"

text \<open>
  Position \<open>p\<close> is tagged by one of the faces \<open>Fs\<close>: the face has its cosine at or below
  the threshold, \<open>p\<close> lies in the row of one of its two cells, and one of its vertices
  lists the entry at \<open>p\<close>.
\<close>

definition tagged ::
  "(nat \<Rightarrow> real) \<Rightarrow> real \<Rightarrow> cs_mesh_t \<Rightarrow> int list \<Rightarrow> int list \<Rightarrow> int list \<Rightarrow> int list \<Rightarrow>
   nat list \<Rightarrow> nat \<Rightarrow> bool" where
  "tagged cos_ij_fn cos_ij_fn_min mesh vci vcl idx lst0 Fs p \<longleftrightarrow>
     (\<exists>f \<in> set Fs. cos_ij_fn f \<le> cos_ij_fn_min
        \<and> face_touches mesh vci vcl f (lst0 ! p)
        \<and> (in_row (n_cells mesh) idx (i_face_cells mesh ! (2 * f) - 1) p
           \<or> in_row (n_cells mesh) idx (i_face_cells mesh ! (2 * f + 1) - 1) p))"

text \<open>The number of positive entries among the first \<open>a\<close>.\<close>

definition kept :: "nat \<Rightarrow> int list \<Rightarrow> nat" where
  "kept a xs = length (filter (\<lambda>x. 0 < x) (take a xs))"

text \<open>
  The invariant of the deletion loop after the first \<open>a\<close> positions of the list \<open>xs\<close>
  have been visited, and its extension to the index after the first \<open>c\<close> rows.
\<close>

definition del_inv :: "int list \<Rightarrow> deletion \<Rightarrow> nat \<Rightarrow> bool" where
  "del_inv xs d a \<longleftrightarrow>
     length (del_lst d) = length xs
   \<and> new_idx d + 1 = int (kept a xs)
   \<and> n_deleted_cells d = int a - int (kept a xs)
   \<and> take (kept a xs) (del_lst d) = filter (\<lambda>x. 0 < x) (take a xs)
   \<and> drop a (del_lst d) = drop a xs"

definition row_inv :: "nat \<Rightarrow> int list \<Rightarrow> int list \<Rightarrow> nat \<Rightarrow> deletion \<Rightarrow> bool" where
  "row_inv n idx0 xs c d \<longleftrightarrow>
     del_inv xs d (nat (idx0 ! c - 1))
   \<and> previous_idx d = idx0 ! c - 1
   \<and> length (del_idx d) = n + 1
   \<and> (\<forall>j \<le> c. del_idx d ! j = 1 + int (kept (nat (idx0 ! j - 1)) xs))
   \<and> (\<forall>j. c < j \<longrightarrow> j \<le> n \<longrightarrow> del_idx d ! j = idx0 ! j)"

text \<open>
  The events of the vertex to faces build: for every internal face in turn, each of its
  vertices gets the face number. The fill pass of that build stores an entry at the
  cursor of its row, which is the index slot itself, and advances it.
\<close>

definition vtx_face_events :: "cs_mesh_t \<Rightarrow> (nat \<times> int) list" where
  "vtx_face_events mesh =
     concat (map (\<lambda>face_id. map (\<lambda>i. (nat (i_face_vtx_lst mesh ! i - 1), int face_id + 1))
                              (range1 (i_face_vtx_idx mesh) face_id))
               [0..<n_i_faces mesh])"

definition cursor_event :: "nat \<times> int \<Rightarrow> int list \<times> int list \<Rightarrow> int list \<times> int list" where
  "cursor_event e s =
     ((fst s)[nat (snd s ! fst e - 1) := snd e], (snd s)[fst e := snd s ! fst e + 1])"

text \<open>
  The vertex to cells build: a cell number is appended unless the part of the list that
  belongs to the current vertex has it. The cell numbers gone through for vertex \<open>v\<close>
  are the two cells of each of its faces.
\<close>

definition add_new :: "nat \<Rightarrow> int \<Rightarrow> int list \<Rightarrow> int list" where
  "add_new start c lst = (if c \<in> set (drop start lst) then lst else lst @ [c])"

definition vtx_cell_nums :: "cs_mesh_t \<Rightarrow> int list \<Rightarrow> int list \<Rightarrow> nat \<Rightarrow> int list" where
  "vtx_cell_nums mesh vfi vfl v =
     concat (map (\<lambda>i. [i_face_cells mesh ! (2 * nat (vfl ! i - 1)),
                        i_face_cells mesh ! (2 * nat (vfl ! i - 1) + 1)])
               (range1 vfi v))"

text \<open>
  One round of the loop over the vertices, and the state after the first \<open>k\<close> rounds: the
  index is filled up to slot \<open>k\<close>, which points behind the list, and the rows of the
  vertices done hold the cell numbers gone through for them.
\<close>

definition vtx_cells_round ::
  "cs_mesh_t \<Rightarrow> int list \<Rightarrow> int list \<Rightarrow> nat \<Rightarrow> int list \<times> int list \<Rightarrow> int list \<times> int list" where
  "vtx_cells_round mesh vfi vfl vtx_id s =
     (let (vtx_cells_idx, vtx_cells_lst) =
            fold (\<lambda>i. let face_id = vfl ! i - 1
                       in fold (vtx_cells_add mesh vtx_id face_id) [0..<2])
                 (range1 vfi vtx_id) s
      in (vtx_cells_idx[vtx_id + 1 := int (length vtx_cells_lst) + 1], vtx_cells_lst))"

definition vtx_cells_inv ::
  "cs_mesh_t \<Rightarrow> int list \<Rightarrow> int list \<Rightarrow> nat \<Rightarrow> int list \<times> int list \<Rightarrow> bool" where
  "vtx_cells_inv mesh vfi vfl k s \<longleftrightarrow>
     length (fst s) = n_vertices mesh + 1
   \<and> fst s ! k = int (length (snd s)) + 1
   \<and> (\<forall>u \<le> k. 1 \<le> fst s ! u \<and> fst s ! u \<le> int (length (snd s)) + 1)
   \<and> (\<forall>u < k. set (row1 (fst s) (snd s) u) = set (vtx_cell_nums mesh vfi vfl u))"

text \<open>
  A mesh of three cells in a line, with three vertices: face 1 joins cells 1 and 2 and
  has vertices 1 and 2, face 2 joins cells 2 and 3 and has vertices 2 and 3. The
  extended row of cell 1 is \<open>[3]\<close>, that of cell 3 is \<open>[1]\<close>. With the cosines
  \<open>line_cos\<close> and a threshold of one half, only face 1 is non-orthogonal.
\<close>

definition line_mesh :: cs_mesh_t where
  "line_mesh = \<lparr>n_cells = 3, n_i_faces = 2, n_vertices = 3,
     i_face_cells = [1, 2, 2, 3], i_face_vtx_idx = [1, 3, 5], i_face_vtx_lst = [1, 2, 2, 3],
     halo_type = CS_HALO_EXTENDED,
     cell_cells_idx = Some [1, 2, 2, 3], cell_cells_lst = Some [3, 1]\<rparr>"

definition line_cos :: "nat \<Rightarrow> real" where
  "line_cos face_id = (if face_id = 0 then 0 else 1)"

section \<open>Properties of the memory pool\<close>

subsection \<open>The two loops of allocate\<close>

lemma evict_scan_fst:
  "fst (evict_scan bs ba) = map age (filter (\<lambda>b. ttl b + 1 < TTL_MAX) bs)"
  by (induction bs arbitrary: ba) (auto simp: age_def Let_def case_prod_beta)

lemma free_block_allocs [simp]: "allocs (free_block me ba) = allocs ba"
  by (simp add: free_block_def backend_free_def Let_def)

lemma free_block_next_ptr [simp]: "next_ptr (free_block me ba) = next_ptr ba"
  by (simp add: free_block_def backend_free_def Let_def)

lemma evict_scan_allocs [simp]: "allocs (snd (evict_scan bs ba)) = allocs ba"
  by (induction bs arbitrary: ba) (auto simp: Let_def case_prod_beta)

lemma evict_scan_next_ptr [simp]: "next_ptr (snd (evict_scan bs ba)) = next_ptr ba"
  by (induction bs arbitrary: ba) (auto simp: Let_def case_prod_beta)

lemma take_match_None: "take_match sz bs = None \<longleftrightarrow> (\<forall>b \<in> set bs. size_b b \<noteq> sz)"
  by (induction bs) (auto split: option.splits)

lemma take_match_append_last:
  "\<forall>b \<in> set bs. size_b b \<noteq> sz \<Longrightarrow> size_b b = sz \<Longrightarrow> take_match sz (bs @ [b]) = Some (b, bs)"
  by (induction bs) (auto split: option.splits)

lemma take_match_Some_mem:
  "take_match sz bs = Some (me, rest) \<Longrightarrow> me \<in> set bs \<and> size_b me = sz"
  by (induction bs arbitrary: rest) (auto split: option.splits if_splits)

subsection \<open>Release of a pointer the pool does not know\<close>

text \<open>
  Claim C10. Releasing a non-null pointer that is not a key of \<open>allocated_blocks\<close> is
  neither an error nor a no-op: the pool asks the allocator's bookkeeping and appends
  what it reports, with the counter reset to 0, to the free-list of the reported mode,
  whatever the reported pointers are (also when both are null). The entry then behaves
  like any retired block: the next scan of that free-list ages it to 1, and an acquire
  of its mode whose adjusted size equals its size (no older entry of that size being
  there) hands it out.
\<close>

theorem deallocate_unrecognized_pointer:
  assumes "p \<noteq> nullptr" and "allocated_blocks pool p = None"
  shows "deallocate info_try p pool =
           pool\<lparr>free_blocks := (free_blocks pool)
             (mode (info_try p) := free_blocks pool (mode (info_try p)) @ [(info_try p)\<lparr>ttl := 0\<rparr>])\<rparr>
         \<and> fst (evict_scan (free_blocks (deallocate info_try p pool) (mode (info_try p))) ba) =
             fst (evict_scan (free_blocks pool (mode (info_try p))) ba) @ [(info_try p)\<lparr>ttl := 1\<rparr>]
         \<and> ((\<forall>b \<in> set (free_blocks pool (mode (info_try p))). size_b b \<noteq> size_b (info_try p))
              \<and> adjusted_size sz = size_b (info_try p) \<longrightarrow>
             fst (allocate sz (mode (info_try p)) (deallocate info_try p pool)) = (info_try p)\<lparr>ttl := 1\<rparr>)"
proof -
  let ?me = "info_try p" and ?md = "mode (info_try p)"
  let ?pool' = "deallocate info_try p pool"
  have eq: "?pool' = pool\<lparr>free_blocks := (free_blocks pool)(?md := free_blocks pool ?md @ [?me\<lparr>ttl := 0\<rparr>])\<rparr>"
    using assms by (simp add: deallocate_def Let_def)
  have fl: "free_blocks ?pool' ?md = free_blocks pool ?md @ [?me\<lparr>ttl := 0\<rparr>]"
    by (simp add: eq)
  have scan: "fst (evict_scan (free_blocks ?pool' ?md) ba) =
      fst (evict_scan (free_blocks pool ?md) ba) @ [?me\<lparr>ttl := 1\<rparr>]" for ba
    by (simp add: fl evict_scan_fst age_def TTL_MAX_def)
  have match: "fst (allocate sz ?md ?pool') = ?me\<lparr>ttl := 1\<rparr>"
    if nm: "\<forall>b \<in> set (free_blocks pool ?md). size_b b \<noteq> size_b ?me"
      and sz: "adjusted_size sz = size_b ?me"
  proof -
    let ?xs = "fst (evict_scan (free_blocks pool ?md) (backend ?pool'))"
    have "\<forall>b \<in> set ?xs. size_b b \<noteq> adjusted_size sz"
      using nm sz by (auto simp: evict_scan_fst age_def)
    then have "take_match (adjusted_size sz) (?xs @ [?me\<lparr>ttl := 1\<rparr>]) = Some (?me\<lparr>ttl := 1\<rparr>, ?xs)"
      by (rule take_match_append_last) (simp add: sz)
    then show ?thesis
      using scan [of "backend ?pool'"] by (simp add: allocate_def Let_def case_prod_beta)
  qed
  show ?thesis using eq scan match by blast
qed

theorem deallocate_unrecognized_pointer_witness:
  "free_blocks (deallocate no_info 7 empty_pool) CS_ALLOC_HOST = [no_info 7]
   \<and> fst (allocate 0 CS_ALLOC_HOST (deallocate no_info 7 empty_pool)) = (no_info 7)\<lparr>ttl := 1\<rparr>"
proof -
  have h1: "(7::nat) \<noteq> nullptr" by (simp add: nullptr_def)
  have h2: "allocated_blocks empty_pool 7 = None" by (simp add: empty_pool_def)
  have md: "mode (no_info 7) = CS_ALLOC_HOST" and sz: "size_b (no_info 7) = 0"
    and t0: "(no_info 7)\<lparr>ttl := 0\<rparr> = no_info 7"
    by (simp_all add: no_info_def)
  have fl: "free_blocks empty_pool CS_ALLOC_HOST = []" by (simp add: empty_pool_def)
  have adj: "adjusted_size 0 = 0" by (simp add: adjusted_size_def)
  note t = deallocate_unrecognized_pointer [OF h1 h2, of no_info "backend empty_pool" 0]
  from conjunct1 [OF t] have a: "deallocate no_info 7 empty_pool =
      empty_pool\<lparr>free_blocks := (free_blocks empty_pool)(CS_ALLOC_HOST := [no_info 7])\<rparr>"
    by (simp add: md fl t0)
  from conjunct2 [OF conjunct2 [OF t]] have b: "fst (allocate 0 CS_ALLOC_HOST (deallocate no_info 7 empty_pool)) = (no_info 7)\<lparr>ttl := 1\<rparr>"
    by (simp add: md fl sz adj)
  show ?thesis using a b by simp
qed

subsection \<open>Lookup of a device-only block\<close>

text \<open>
  Claim C8. A lookup that misses \<open>allocated_blocks\<close> and recovers a device-only block
  (null host pointer, device pointer 5) from the bookkeeping stores it under the block's
  host pointer, that is under the null key, not under the pointer looked up: after
  looking up pointer 5 in the empty pool, key 5 is still absent, so a repeated lookup
  of 5 misses again.
\<close>

theorem get_block_info_device_only_key:
  "fst (get_block_info device_only_info 5 empty_pool) = device_only_info 5
   \<and> allocated_blocks (snd (get_block_info device_only_info 5 empty_pool)) 5 = None
   \<and> allocated_blocks (snd (get_block_info device_only_info 5 empty_pool)) nullptr
       = Some (device_only_info 5)"
  by (simp add: get_block_info_def empty_pool_def device_only_info_def nullptr_def Let_def)

theorem get_block_info_device_only_key_witness:
  "allocated_blocks (snd (get_block_info device_only_info 5 empty_pool)) 5 = None"
  using get_block_info_device_only_key by simp

subsection \<open>The two outcomes of allocate\<close>

lemma allocate_fresh:
  assumes "\<forall>b \<in> set (free_blocks pool md). ttl b + 1 < TTL_MAX \<longrightarrow> size_b b \<noteq> adjusted_size sz"
  shows "allocate sz md pool =
     (let (fb, ba) = evict_scan (free_blocks pool md) (backend pool);
          (me, ba') = allocate_new_block (adjusted_size sz) md ba
      in (me, pool\<lparr>allocated_blocks := (allocated_blocks pool)(host_ptr me \<mapsto> me),
                    free_blocks := (free_blocks pool)(md := fb),
                    backend := ba'\<rparr>))"
proof -
  have "take_match (adjusted_size sz) (fst (evict_scan (free_blocks pool md) (backend pool))) = None"
    using assms by (auto simp: take_match_None evict_scan_fst age_def)
  then show ?thesis
    by (simp add: allocate_def Let_def case_prod_beta)
qed

lemma allocate_reuse:
  assumes "take_match (adjusted_size sz) (fst (evict_scan (free_blocks pool md) (backend pool))) = Some (me, rest)"
  shows "allocate sz md pool =
      (me, pool\<lparr>allocated_blocks := (allocated_blocks pool)(host_ptr me \<mapsto> me),
                free_blocks := (free_blocks pool)(md := rest),
                backend := snd (evict_scan (free_blocks pool md) (backend pool))\<rparr>)"
  using assms by (simp add: allocate_def Let_def case_prod_beta)

subsection \<open>Pointers of a freshly allocated block\<close>

text \<open>
  Claim C7. When an acquire finds no entry of the adjusted size left in the mode's
  free-list after the scan, the block comes from a fresh allocation, and its pointers
  follow the mode: for \<open>CS_ALLOC_HOST_DEVICE_SHARED\<close> both pointers are non-null and
  equal; for \<open>CS_ALLOC_DEVICE\<close> the host pointer is null and the device pointer is not;
  for a mode below \<open>CS_ALLOC_HOST_DEVICE_PINNED\<close> the host pointer is non-null and the
  backend's log grows by exactly one allocation, the host allocation that returned it.
\<close>

theorem allocate_fresh_block_pointers:
  assumes fresh: "\<forall>b \<in> set (free_blocks pool md). ttl b + 1 < TTL_MAX \<longrightarrow> size_b b \<noteq> adjusted_size sz"
    and res: "allocate sz md pool = (me, pool')"
  shows "(md = CS_ALLOC_HOST_DEVICE_SHARED \<longrightarrow>
            host_ptr me \<noteq> nullptr \<and> device_ptr me \<noteq> nullptr \<and> host_ptr me = device_ptr me)
       \<and> (md = CS_ALLOC_DEVICE \<longrightarrow> host_ptr me = nullptr \<and> device_ptr me \<noteq> nullptr)
       \<and> (mode_rank md < mode_rank CS_ALLOC_HOST_DEVICE_PINNED \<longrightarrow>
            host_ptr me \<noteq> nullptr
            \<and> allocs (backend pool') = allocs (backend pool) @ [(Bft_mem_malloc, host_ptr me)])"
  using res unfolding allocate_fresh [OF fresh]
  by (cases md)
     (auto simp: allocate_new_block_def backend_malloc_def nullptr_def Let_def case_prod_beta)

theorem allocate_fresh_block_pointers_witness:
  "host_ptr (fst (allocate 100 CS_ALLOC_HOST empty_pool)) \<noteq> nullptr
   \<and> allocs (backend (snd (allocate 100 CS_ALLOC_HOST empty_pool)))
       = [(Bft_mem_malloc, host_ptr (fst (allocate 100 CS_ALLOC_HOST empty_pool)))]"
proof -
  have h: "\<forall>b \<in> set (free_blocks empty_pool CS_ALLOC_HOST).
      ttl b + 1 < TTL_MAX \<longrightarrow> size_b b \<noteq> adjusted_size 100"
    by (simp add: empty_pool_def)
  have r: "allocate 100 CS_ALLOC_HOST empty_pool =
      (fst (allocate 100 CS_ALLOC_HOST empty_pool), snd (allocate 100 CS_ALLOC_HOST empty_pool))"
    by simp
  have a: "allocs (backend empty_pool) = []" by (simp add: empty_pool_def)
  show ?thesis
    using allocate_fresh_block_pointers [OF h r] by (simp add: a)
qed

subsection \<open>Reuse of a released block\<close>

text \<open>Unfolding the operations on concrete pools.\<close>

lemmas pool_eval =
  allocate_def deallocate_def get_block_info_def empty_pool_def adjusted_size_def
  allocate_new_block_def backend_malloc_def free_block_def backend_free_def
  nullptr_def TTL_MAX_def no_info_def Let_def

lemma take_match_snoc_other:
  "size_b b \<noteq> sz \<Longrightarrow>
   take_match sz (bs @ [b]) = (case take_match sz bs of None \<Rightarrow> None | Some (me, rest) \<Rightarrow> Some (me, rest @ [b]))"
  by (induction bs) (auto split: option.splits)

lemma take_match_rest_sizes:
  "take_match sz bs = Some (me, rest) \<Longrightarrow> set rest \<subseteq> set bs"
  by (induction bs arbitrary: rest) (auto split: option.splits if_splits)

lemma allocate_other_mode:
  "m \<noteq> md \<Longrightarrow> free_blocks (snd (allocate s m pool)) md = free_blocks pool md"
  by (simp add: allocate_def Let_def case_prod_beta split: option.splits)

lemma allocate_free_list:
  "free_blocks (snd (allocate s md pool)) md =
     (case take_match (adjusted_size s) (fst (evict_scan (free_blocks pool md) (backend pool))) of
        None \<Rightarrow> fst (evict_scan (free_blocks pool md) (backend pool))
      | Some (me, rest) \<Rightarrow> rest)"
  by (simp add: allocate_def Let_def case_prod_beta split: option.splits)

lemma allocate_size_mode:
  assumes "\<forall>b \<in> set (free_blocks pool md). mode b = md"
  shows "size_b (fst (allocate sz md pool)) = adjusted_size sz \<and> mode (fst (allocate sz md pool)) = md"
proof (cases "take_match (adjusted_size sz) (fst (evict_scan (free_blocks pool md) (backend pool)))")
  case None
  then show ?thesis
    by (auto simp: allocate_def allocate_new_block_def Let_def case_prod_beta)
next
  case (Some a)
  obtain me rest where a: "a = (me, rest)" by (cases a)
  from take_match_Some_mem [OF Some [unfolded a]] assms
  have "size_b me = adjusted_size sz \<and> mode me = md"
    by (auto simp: evict_scan_fst age_def)
  then show ?thesis using Some a by (simp add: allocate_def Let_def case_prod_beta)
qed

text \<open>A retired block stays last in its free-list while acquires of other shapes run.\<close>

lemma allocate_keeps_last:
  assumes fl: "free_blocks pool md = L @ [B\<lparr>ttl := k\<rparr>]"
    and other: "m = md \<longrightarrow> adjusted_size s \<noteq> size_b B"
    and young: "k + 1 < TTL_MAX"
    and no: "noother \<longrightarrow> (\<forall>b \<in> set L. size_b b \<noteq> size_b B)"
  shows "\<exists>L'. free_blocks (snd (allocate s m pool)) md =
            L' @ [B\<lparr>ttl := (if m = md then k + 1 else k)\<rparr>]
          \<and> (noother \<longrightarrow> (\<forall>b \<in> set L'. size_b b \<noteq> size_b B))"
proof (cases "m = md")
  case False
  then show ?thesis using fl no by (simp add: allocate_other_mode)
next
  case True
  let ?L1 = "map age (filter (\<lambda>b. ttl b + 1 < TTL_MAX) L)"
  have scan: "fst (evict_scan (free_blocks pool md) (backend pool)) = ?L1 @ [B\<lparr>ttl := k + 1\<rparr>]"
    using young by (simp add: fl evict_scan_fst age_def)
  have sz: "size_b (B\<lparr>ttl := k + 1\<rparr>) \<noteq> adjusted_size s" using other True by auto
  have no1: "noother \<longrightarrow> (\<forall>b \<in> set ?L1. size_b b \<noteq> size_b B)"
    using no by (auto simp: age_def)
  show ?thesis
  proof (cases "take_match (adjusted_size s) ?L1")
    case None
    then have "free_blocks (snd (allocate s md pool)) md = ?L1 @ [B\<lparr>ttl := k + 1\<rparr>]"
      by (simp add: allocate_free_list scan take_match_snoc_other [OF sz])
    then show ?thesis using True no1 by auto
  next
    case (Some a)
    obtain me rest where a: "a = (me, rest)" by (cases a)
    have "free_blocks (snd (allocate s md pool)) md = rest @ [B\<lparr>ttl := k + 1\<rparr>]"
      using Some a by (simp add: allocate_free_list scan take_match_snoc_other [OF sz])
    moreover have "set rest \<subseteq> set ?L1"
      using take_match_rest_sizes Some a by blast
    ultimately show ?thesis using True no1 by auto
  qed
qed

lemma acquires_keep_last:
  assumes "free_blocks pool md = L @ [B\<lparr>ttl := k\<rparr>]"
    and "\<forall>r \<in> set reqs. snd r = md \<longrightarrow> adjusted_size (fst r) \<noteq> size_b B"
    and "k + int (calls_in_mode md reqs) < TTL_MAX"
    and "noother \<longrightarrow> (\<forall>b \<in> set L. size_b b \<noteq> size_b B)"
  shows "\<exists>L'. free_blocks (snd (acquires reqs pool)) md =
            L' @ [B\<lparr>ttl := k + int (calls_in_mode md reqs)\<rparr>]
          \<and> (noother \<longrightarrow> (\<forall>b \<in> set L'. size_b b \<noteq> size_b B))"
  using assms
proof (induction reqs arbitrary: pool L k)
  case Nil
  then show ?case by (simp add: calls_in_mode_def)
next
  case (Cons r reqs)
  obtain s m where r: "r = (s, m)" by (cases r)
  let ?k1 = "if m = md then k + 1 else k"
  have cnt: "k + int (calls_in_mode md (r # reqs)) = ?k1 + int (calls_in_mode md reqs)"
    by (simp add: calls_in_mode_def r)
  have young: "m = md \<longrightarrow> k + 1 < TTL_MAX"
    using Cons.prems(3) by (auto simp: calls_in_mode_def r)
  have step: "\<exists>L'. free_blocks (snd (allocate s m pool)) md = L' @ [B\<lparr>ttl := ?k1\<rparr>]
          \<and> (noother \<longrightarrow> (\<forall>b \<in> set L'. size_b b \<noteq> size_b B))"
  proof (cases "m = md")
    case True
    then show ?thesis
      using allocate_keeps_last [OF Cons.prems(1), where m = m and s = s and noother = noother]
        Cons.prems(2,4) young r
      by simp
  next
    case False
    then show ?thesis using Cons.prems(1,4) by (simp add: allocate_other_mode)
  qed
  then obtain L1 where L1: "free_blocks (snd (allocate s m pool)) md = L1 @ [B\<lparr>ttl := ?k1\<rparr>]"
    and no1: "noother \<longrightarrow> (\<forall>b \<in> set L1. size_b b \<noteq> size_b B)" by blast
  have "\<exists>L'. free_blocks (snd (acquires reqs (snd (allocate s m pool)))) md =
            L' @ [B\<lparr>ttl := ?k1 + int (calls_in_mode md reqs)\<rparr>]
          \<and> (noother \<longrightarrow> (\<forall>b \<in> set L'. size_b b \<noteq> size_b B))"
    using Cons.IH [OF L1 _ _ no1] Cons.prems(2,3) cnt by simp
  then show ?case
    unfolding cnt by (simp add: r case_prod_beta Let_def)
qed

text \<open>
  Claim C1, as stated, fails: the match is the oldest entry of the adjusted size, which
  need not be the block just released. With two retired 64-byte host blocks (pointers 1
  and 2), an acquire of 64 bytes returns pointer 1; after releasing it, the next acquire
  of 64 bytes returns pointer 2.
\<close>

theorem first_fit_returns_older_block_counterexample:
  "host_ptr (fst (allocate 64 CS_ALLOC_HOST two_retired)) = 1
   \<and> host_ptr (fst (allocate 64 CS_ALLOC_HOST
        (deallocate no_info 1 (snd (allocate 64 CS_ALLOC_HOST two_retired))))) = 2"
  by (simp add: two_retired_def pool_eval)

text \<open>
  Claim C1, amended. Let an acquire of size \<open>sz\<close> and mode \<open>md\<close> return a block \<open>B\<close>
  with a non-null host pointer, let \<open>B\<close> be released through its host pointer, and let
  acquires follow that do not ask for \<open>B\<close>'s adjusted size in mode \<open>md\<close>, fewer than
  499 of them in mode \<open>md\<close>. Then the next acquire of \<open>sz\<close> and \<open>md\<close> makes no
  allocation call and returns the oldest entry of that size in the free-list of \<open>md\<close>;
  when no other block of that size was in this free-list at the release, the block
  returned has \<open>B\<close>'s host and device pointers. (The free-list of \<open>md\<close> is assumed to
  hold blocks of mode \<open>md\<close> only, as release files them.)
\<close>

theorem acquire_release_acquire_reuse:
  assumes modes: "\<forall>b \<in> set (free_blocks pool md). mode b = md"
    and first: "allocate sz md pool = (B, pool1)"
    and nn: "host_ptr B \<noteq> nullptr"
    and between: "\<forall>r \<in> set reqs. snd r = md \<longrightarrow> adjusted_size (fst r) \<noteq> adjusted_size sz"
    and few: "int (calls_in_mode md reqs) + 1 < TTL_MAX"
    and mid: "acquires reqs (deallocate info_try (host_ptr B) pool1) = (mes, pool2)"
    and second: "allocate sz md pool2 = (B2, pool3)"
  shows "allocs (backend pool3) = allocs (backend pool2)
       \<and> take_match (adjusted_size sz) (fst (evict_scan (free_blocks pool2 md) (backend pool2)))
           = Some (B2, free_blocks pool3 md)
       \<and> ((\<forall>b \<in> set (free_blocks pool1 md). size_b b \<noteq> adjusted_size sz) \<longrightarrow>
            host_ptr B2 = host_ptr B \<and> device_ptr B2 = device_ptr B)"
proof -
  define noother where "noother \<longleftrightarrow> (\<forall>b \<in> set (free_blocks pool1 md). size_b b \<noteq> adjusted_size sz)"
  define k where "k = int (calls_in_mode md reqs)"
  have B: "size_b B = adjusted_size sz" "mode B = md"
    using allocate_size_mode [OF modes, of sz] first by simp_all
  have rec: "allocated_blocks pool1 (host_ptr B) = Some B"
    using first by (auto simp: allocate_def Let_def case_prod_beta split: option.splits)
  have rel: "free_blocks (deallocate info_try (host_ptr B) pool1) md
      = free_blocks pool1 md @ [B\<lparr>ttl := 0\<rparr>]"
    using rec nn B by (simp add: deallocate_def Let_def)
  have "\<exists>L'. free_blocks (snd (acquires reqs (deallocate info_try (host_ptr B) pool1))) md =
            L' @ [B\<lparr>ttl := 0 + int (calls_in_mode md reqs)\<rparr>]
          \<and> (noother \<longrightarrow> (\<forall>b \<in> set L'. size_b b \<noteq> size_b B))"
    using between few
    by (intro acquires_keep_last [OF rel]) (auto simp: B noother_def)
  then obtain L where L: "free_blocks pool2 md = L @ [B\<lparr>ttl := k\<rparr>]"
    and noL: "noother \<longrightarrow> (\<forall>b \<in> set L. size_b b \<noteq> adjusted_size sz)"
    using mid by (auto simp: k_def B)
  let ?L1 = "map age (filter (\<lambda>b. ttl b + 1 < TTL_MAX) L)"
  let ?fb = "fst (evict_scan (free_blocks pool2 md) (backend pool2))"
  have scan: "?fb = ?L1 @ [B\<lparr>ttl := k + 1\<rparr>]"
    using few by (simp add: L evict_scan_fst age_def k_def)
  have "take_match (adjusted_size sz) ?fb \<noteq> None"
    by (simp add: scan take_match_None B)
  then obtain me rest where tm: "take_match (adjusted_size sz) ?fb = Some (me, rest)"
    by auto
  have res: "B2 = me" "pool3 = pool2\<lparr>allocated_blocks := (allocated_blocks pool2)(host_ptr me \<mapsto> me),
                free_blocks := (free_blocks pool2)(md := rest),
                backend := snd (evict_scan (free_blocks pool2 md) (backend pool2))\<rparr>"
    using second by (auto simp: allocate_reuse [OF tm])
  have c1: "allocs (backend pool3) = allocs (backend pool2)"
    by (simp add: res)
  have c2: "take_match (adjusted_size sz) ?fb = Some (B2, free_blocks pool3 md)"
    by (simp add: tm res)
  have c3: "host_ptr B2 = host_ptr B \<and> device_ptr B2 = device_ptr B" if noother
  proof -
    have "\<forall>b \<in> set ?L1. size_b b \<noteq> adjusted_size sz"
      using noL that by (auto simp: age_def)
    then have "take_match (adjusted_size sz) (?L1 @ [B\<lparr>ttl := k + 1\<rparr>]) = Some (B\<lparr>ttl := k + 1\<rparr>, ?L1)"
      by (rule take_match_append_last) (simp add: B)
    then have "me = B\<lparr>ttl := k + 1\<rparr>" using tm scan by simp
    then show ?thesis by (simp add: res)
  qed
  show ?thesis using c1 c2 c3 by (simp add: noother_def)
qed

theorem acquire_release_acquire_reuse_witness:
  "host_ptr (fst (allocate 100 CS_ALLOC_HOST
      (snd (acquires [(10, CS_ALLOC_HOST), (100, CS_ALLOC_DEVICE)]
         (deallocate no_info 1 (snd (allocate 100 CS_ALLOC_HOST empty_pool)))))))
     = host_ptr (fst (allocate 100 CS_ALLOC_HOST empty_pool))"
proof -
  let ?reqs = "[(10, CS_ALLOC_HOST), (100, CS_ALLOC_DEVICE)] :: (size_t \<times> cs_alloc_mode_t) list"
  let ?B = "fst (allocate 100 CS_ALLOC_HOST empty_pool)"
  let ?pool1 = "snd (allocate 100 CS_ALLOC_HOST empty_pool)"
  let ?pool2 = "snd (acquires ?reqs (deallocate no_info (host_ptr ?B) ?pool1))"
  have hB: "host_ptr ?B = 1" by (simp add: pool_eval)
  have h1: "\<forall>b \<in> set (free_blocks empty_pool CS_ALLOC_HOST). mode b = CS_ALLOC_HOST"
    by (simp add: empty_pool_def)
  have h2: "allocate 100 CS_ALLOC_HOST empty_pool = (?B, ?pool1)" by simp
  have h3: "host_ptr ?B \<noteq> nullptr" by (simp add: hB nullptr_def)
  have h4: "\<forall>r \<in> set ?reqs. snd r = CS_ALLOC_HOST \<longrightarrow> adjusted_size (fst r) \<noteq> adjusted_size 100"
    by (simp add: adjusted_size_def)
  have h5: "int (calls_in_mode CS_ALLOC_HOST ?reqs) + 1 < TTL_MAX"
    by (simp add: calls_in_mode_def TTL_MAX_def)
  have h6: "acquires ?reqs (deallocate no_info (host_ptr ?B) ?pool1)
      = (fst (acquires ?reqs (deallocate no_info (host_ptr ?B) ?pool1)), ?pool2)" by simp
  have h7: "allocate 100 CS_ALLOC_HOST ?pool2
      = (fst (allocate 100 CS_ALLOC_HOST ?pool2), snd (allocate 100 CS_ALLOC_HOST ?pool2))" by simp
  have h8: "free_blocks ?pool1 CS_ALLOC_HOST = []" by (simp add: pool_eval)
  show ?thesis
    using acquire_release_acquire_reuse [OF h1 h2 h3 h4 h5 h6 h7] by (simp add: h8 hB)
qed

subsection \<open>The counter of a block that is checked out\<close>









subsection \<open>Eviction of a block left unmatched\<close>


lemma release_calls_ttl [simp]: "release_calls (b\<lparr>ttl := k\<rparr>) = release_calls b"
  by (simp add: release_calls_def free_block_def backend_free_def Let_def)


lemma allocate_new_block_frees [simp]:
  "frees (snd (allocate_new_block sz md ba)) = frees ba"
  by (simp add: allocate_new_block_def backend_malloc_def Let_def)




lemma take_match_set:
  "take_match sz bs = Some (me, rest) \<Longrightarrow> set bs = insert me (set rest)"
  by (induction bs arbitrary: rest) (auto split: option.splits if_splits)

lemma take_match_distinct:
  "take_match sz bs = Some (me, rest) \<Longrightarrow> distinct (map f bs) \<Longrightarrow> distinct (map f rest)"
proof (induction bs arbitrary: rest)
  case Nil
  then show ?case by simp
next
  case (Cons b bs)
  show ?case
  proof (cases "size_b b = sz")
    case True
    then show ?thesis using Cons.prems by auto
  next
    case False
    then obtain r where r: "take_match sz bs = Some (me, r)" "rest = b # r"
      using Cons.prems(1) by (auto split: option.splits)
    have "set r \<subseteq> set bs" using take_match_set [OF r(1)] by auto
    then show ?thesis using Cons.IH [OF r(1)] Cons.prems(2) r(2) by auto
  qed
qed

lemma scan_host_ptrs:
  "map host_ptr (map age (filter P bs)) = map host_ptr (filter P bs)"
  by (induction bs) (simp_all add: age_def)























subsection \<open>Ownership exclusivity\<close>

lemma pool_inv_exclusive: "pool_inv pool \<Longrightarrow> exclusive pool"
  unfolding pool_inv_def exclusive_def checked_out_def retired_def by fastforce

lemma pool_invI:
  assumes "\<And>k b. allocated_blocks pool k = Some b \<Longrightarrow> host_ptr b = k"
    and "\<And>md x. x \<in> set (free_blocks pool md) \<Longrightarrow> allocated_blocks pool (host_ptr x) = None"
    and "\<And>md. distinct (map host_ptr (free_blocks pool md))"
    and "\<And>md md'. md \<noteq> md' \<Longrightarrow>
          host_ptr ` set (free_blocks pool md) \<inter> host_ptr ` set (free_blocks pool md') = {}"
  shows "pool_inv pool"
  unfolding pool_inv_def
proof (intro conjI allI ballI impI)
  fix k b assume "allocated_blocks pool k = Some b"
  from assms(1) [OF this] show "host_ptr b = k" .
next
  fix md x assume "x \<in> set (free_blocks pool md)"
  from assms(2) [OF this] show "allocated_blocks pool (host_ptr x) = None" .
next
  fix md show "distinct (map host_ptr (free_blocks pool md))" by (rule assms(3))
next
  fix md md' :: cs_alloc_mode_t assume "md \<noteq> md'"
  from assms(4) [OF this]
  show "host_ptr ` set (free_blocks pool md) \<inter> host_ptr ` set (free_blocks pool md') = {}" .
qed

lemma pool_inv_empty: "pool_inv empty_pool"
  by (simp add: pool_inv_def empty_pool_def)

lemma take_match_notin:
  "take_match sz bs = Some (me, rest) \<Longrightarrow> distinct (map f bs) \<Longrightarrow> f me \<notin> f ` set rest"
proof (induction bs arbitrary: rest)
  case Nil
  then show ?case by simp
next
  case (Cons b bs)
  show ?case
  proof (cases "size_b b = sz")
    case True
    then show ?thesis using Cons.prems by auto
  next
    case False
    then obtain r where r: "take_match sz bs = Some (me, r)" "rest = b # r"
      using Cons.prems(1) by (auto split: option.splits)
    have "me \<in> set bs" using take_match_Some_mem [OF r(1)] by simp
    moreover have "f b \<notin> f ` set bs" using Cons.prems(2) by simp
    ultimately have "f me \<noteq> f b" by (metis imageI)
    then show ?thesis using Cons.IH [OF r(1)] Cons.prems(2) r(2) by auto
  qed
qed

lemma retired_iff: "p \<in> retired pool \<longleftrightarrow> (\<exists>md. \<exists>b \<in> set (free_blocks pool md). host_ptr b = p)"
  by (auto simp: retired_def)

lemma allocate_new_block_host_ptr:
  "next_ptr ba = next_ptr ba' \<Longrightarrow>
   host_ptr (fst (allocate_new_block sz md ba)) = host_ptr (fst (allocate_new_block sz md ba'))"
  by (cases md) (simp_all add: allocate_new_block_def backend_malloc_def Let_def)

lemma pool_inv_allocate:
  assumes inv: "pool_inv pool" and ord: "orderly info_try pool (Acquire sz md)"
  shows "pool_inv (snd (allocate sz md pool))"
proof -
  let ?A = "allocated_blocks pool" and ?F = "free_blocks pool"
  let ?fb = "fst (evict_scan (?F md) (backend pool))"
  let ?ba = "snd (evict_scan (?F md) (backend pool))"
  from inv have a: "\<And>k b. ?A k = Some b \<Longrightarrow> host_ptr b = k"
    and b: "\<And>m x. x \<in> set (?F m) \<Longrightarrow> ?A (host_ptr x) = None"
    and c: "\<And>m. distinct (map host_ptr (?F m))"
    and d: "\<And>m m'. m \<noteq> m' \<Longrightarrow> host_ptr ` set (?F m) \<inter> host_ptr ` set (?F m') = {}"
    unfolding pool_inv_def by blast+
  have F1: "host_ptr ` set ?fb \<subseteq> host_ptr ` set (?F md)"
    by (auto simp: evict_scan_fst age_def)
  have F2: "distinct (map host_ptr ?fb)"
    unfolding evict_scan_fst scan_host_ptrs by (rule distinct_map_filter) (rule c)
  show ?thesis
  proof (cases "take_match (adjusted_size sz) ?fb")
    case None
    let ?me = "fst (allocate_new_block (adjusted_size sz) md ?ba)"
    let ?ba' = "snd (allocate_new_block (adjusted_size sz) md ?ba)"
    have eq: "snd (allocate sz md pool) =
        pool\<lparr>allocated_blocks := ?A(host_ptr ?me \<mapsto> ?me), free_blocks := ?F(md := ?fb), backend := ?ba'\<rparr>"
      using None by (simp add: allocate_def Let_def case_prod_beta)
    have noreuse: "\<not> (\<exists>b \<in> set (?F md). ttl b + 1 < TTL_MAX \<and> size_b b = adjusted_size sz)"
      using None by (auto simp: take_match_None evict_scan_fst age_def)
    have "host_ptr ?me = host_ptr (fst (allocate_new_block (adjusted_size sz) md (backend pool)))"
      by (rule allocate_new_block_host_ptr) simp
    then have notret: "host_ptr ?me \<notin> retired pool" using ord noreuse by simp
    have sub: "\<exists>y \<in> set (?F m). host_ptr y = host_ptr x" if "x \<in> set ((?F(md := ?fb)) m)" for x m
    proof (cases "m = md")
      case True
      then have "host_ptr x \<in> host_ptr ` set (?F md)" using that F1 by auto
      then show ?thesis using True by auto
    next
      case False
      then show ?thesis using that by auto
    qed
    have fresh: "host_ptr x \<noteq> host_ptr ?me" if "x \<in> set ((?F(md := ?fb)) m)" for x m
    proof -
      from sub [OF that] obtain y where y: "y \<in> set (?F m)" "host_ptr y = host_ptr x" by blast
      then have "host_ptr x \<in> retired pool" unfolding retired_iff by blast
      then show ?thesis using notret by auto
    qed
    have a': "host_ptr x = k" if "(?A(host_ptr ?me \<mapsto> ?me)) k = Some x" for k x
    proof (cases "k = host_ptr ?me")
      case True
      then have "x = ?me" using that by simp
      then show ?thesis using True by simp
    next
      case False
      then have "?A k = Some x" using that by simp
      from a [OF this] show ?thesis by simp
    qed
    have b': "(?A(host_ptr ?me \<mapsto> ?me)) (host_ptr x) = None"
      if "x \<in> set ((?F(md := ?fb)) m)" for x m
    proof -
      from sub [OF that] obtain y where y: "y \<in> set (?F m)" "host_ptr y = host_ptr x" by blast
      from b [OF y(1)] fresh [OF that] y(2) show ?thesis by simp
    qed
    have c': "distinct (map host_ptr ((?F(md := ?fb)) m))" for m
    proof (cases "m = md")
      case True
      then show ?thesis using F2 by simp
    next
      case False
      then show ?thesis using c [of m] by simp
    qed
    have d': "host_ptr ` set ((?F(md := ?fb)) m) \<inter> host_ptr ` set ((?F(md := ?fb)) m') = {}"
      if mm: "m \<noteq> m'" for m m'
    proof -
      have "host_ptr x \<noteq> host_ptr y"
        if x: "x \<in> set ((?F(md := ?fb)) m)" and y: "y \<in> set ((?F(md := ?fb)) m')" for x y
      proof -
        from sub [OF x] obtain x0 where x0: "x0 \<in> set (?F m)" "host_ptr x0 = host_ptr x" by blast
        from sub [OF y] obtain y1 where y1: "y1 \<in> set (?F m')" "host_ptr y1 = host_ptr y" by blast
        have "host_ptr x0 \<noteq> host_ptr y1" using d [OF mm] x0(1) y1(1) by blast
        then show ?thesis using x0(2) y1(2) by simp
      qed
      then show ?thesis by blast
    qed
    show ?thesis
      unfolding eq
    proof (rule pool_invI, goal_cases)
      case (1 k x)
      then show ?case using a' [of k x] by simp
    next
      case (2 m x)
      then show ?case using b' [of x m] by simp
    next
      case (3 m)
      show ?case using c' [of m] by simp
    next
      case (4 m m')
      then show ?case using d' [of m m'] by simp
    qed
  next
    case (Some r)
    obtain me rest where r: "r = (me, rest)" by (cases r)
    have tm: "take_match (adjusted_size sz) ?fb = Some (me, rest)" using Some r by simp
    have eq: "snd (allocate sz md pool) =
        pool\<lparr>allocated_blocks := ?A(host_ptr me \<mapsto> me), free_blocks := ?F(md := rest), backend := ?ba\<rparr>"
      by (simp add: allocate_reuse [OF tm])
    have set_fb: "set ?fb = insert me (set rest)" by (rule take_match_set [OF tm])
    have sub: "\<exists>y \<in> set (?F m). host_ptr y = host_ptr x" if "x \<in> set ((?F(md := rest)) m)" for x m
    proof (cases "m = md")
      case True
      then have "x \<in> set ?fb" using that set_fb by simp
      then have "host_ptr x \<in> host_ptr ` set (?F md)" using F1 by blast
      then show ?thesis using True by auto
    next
      case False
      then show ?thesis using that by auto
    qed
    have "host_ptr me \<in> host_ptr ` set (?F md)" using F1 set_fb by blast
    then obtain y0 where y0: "y0 \<in> set (?F md)" "host_ptr y0 = host_ptr me"
      by auto
    have other: "host_ptr x \<noteq> host_ptr me" if "x \<in> set ((?F(md := rest)) m)" for x m
    proof (cases "m = md")
      case True
      then have "x \<in> set rest" using that by simp
      then show ?thesis using take_match_notin [OF tm F2] by (metis imageI)
    next
      case False
      then have "x \<in> set (?F m)" using that by simp
      then have "host_ptr x \<noteq> host_ptr y0" using d [OF False] y0(1) by blast
      then show ?thesis using y0(2) by simp
    qed
    have a': "host_ptr x = k" if "(?A(host_ptr me \<mapsto> me)) k = Some x" for k x
    proof (cases "k = host_ptr me")
      case True
      then have "x = me" using that by simp
      then show ?thesis using True by simp
    next
      case False
      then have "?A k = Some x" using that by simp
      from a [OF this] show ?thesis by simp
    qed
    have b': "(?A(host_ptr me \<mapsto> me)) (host_ptr x) = None"
      if "x \<in> set ((?F(md := rest)) m)" for x m
    proof -
      from sub [OF that] obtain y where y: "y \<in> set (?F m)" "host_ptr y = host_ptr x" by blast
      from b [OF y(1)] other [OF that] y(2) show ?thesis by simp
    qed
    have c': "distinct (map host_ptr ((?F(md := rest)) m))" for m
    proof (cases "m = md")
      case True
      then show ?thesis using take_match_distinct [OF tm F2] by simp
    next
      case False
      then show ?thesis using c [of m] by simp
    qed
    have d': "host_ptr ` set ((?F(md := rest)) m) \<inter> host_ptr ` set ((?F(md := rest)) m') = {}"
      if mm: "m \<noteq> m'" for m m'
    proof -
      have "host_ptr x \<noteq> host_ptr y"
        if x: "x \<in> set ((?F(md := rest)) m)" and y: "y \<in> set ((?F(md := rest)) m')" for x y
      proof -
        from sub [OF x] obtain x0 where x0: "x0 \<in> set (?F m)" "host_ptr x0 = host_ptr x" by blast
        from sub [OF y] obtain y1 where y1: "y1 \<in> set (?F m')" "host_ptr y1 = host_ptr y" by blast
        have "host_ptr x0 \<noteq> host_ptr y1" using d [OF mm] x0(1) y1(1) by blast
        then show ?thesis using x0(2) y1(2) by simp
      qed
      then show ?thesis by blast
    qed
    show ?thesis
      unfolding eq
    proof (rule pool_invI, goal_cases)
      case (1 k x)
      then show ?case using a' [of k x] by simp
    next
      case (2 m x)
      then show ?case using b' [of x m] by simp
    next
      case (3 m)
      show ?case using c' [of m] by simp
    next
      case (4 m m')
      then show ?case using d' [of m m'] by simp
    qed
  qed
qed

text \<open>Filing a block whose host pointer the pool does not hold.\<close>

lemma pool_inv_file:
  assumes a: "\<And>k b. A k = Some b \<Longrightarrow> host_ptr b = k"
    and b: "\<And>m x. x \<in> set (free_blocks pool m) \<Longrightarrow> A (host_ptr x) = None"
    and c: "\<And>m. distinct (map host_ptr (free_blocks pool m))"
    and d: "\<And>m m'. m \<noteq> m' \<Longrightarrow>
          host_ptr ` set (free_blocks pool m) \<inter> host_ptr ` set (free_blocks pool m') = {}"
    and h1: "A (host_ptr me) = None"
    and h2: "host_ptr me \<notin> retired pool"
  shows "pool_inv (pool\<lparr>allocated_blocks := A,
           free_blocks := (free_blocks pool)(mode me := free_blocks pool (mode me) @ [me])\<rparr>)"
proof -
  let ?F = "free_blocks pool"
  let ?F' = "?F(mode me := ?F (mode me) @ [me])"
  have notret: "host_ptr x \<noteq> host_ptr me" if "x \<in> set (?F m)" for x m
    using h2 that unfolding retired_iff by blast
  have mem: "x \<in> set (?F m) \<or> x = me" if "x \<in> set (?F' m)" for x m
    using that by (auto split: if_splits)
  have b': "A (host_ptr x) = None" if "x \<in> set (?F' m)" for x m
    using mem [OF that] b h1 by auto
  have pn: "host_ptr me \<notin> host_ptr ` set (?F m)" for m
    using notret [of _ m] by force
  have c': "distinct (map host_ptr (?F' m))" for m
    using c [of m] pn [of m] by auto
  have d': "host_ptr ` set (?F' m) \<inter> host_ptr ` set (?F' m') = {}" if mm: "m \<noteq> m'" for m m'
  proof -
    have "host_ptr x \<noteq> host_ptr y" if xm: "x \<in> set (?F' m)" and ym: "y \<in> set (?F' m')" for x y
    proof -
      from xm ym mm
      consider "x \<in> set (?F m)" "y \<in> set (?F m')" | "x = me" "y \<in> set (?F m')"
        | "x \<in> set (?F m)" "y = me"
        by (auto split: if_splits)
      then show ?thesis
      proof cases
        case 1
        then show ?thesis using d [OF mm] by blast
      next
        case 2
        then show ?thesis using notret [of y m'] by auto
      next
        case 3
        then show ?thesis using notret [of x m] by auto
      qed
    qed
    then show ?thesis by blast
  qed
  show ?thesis
  proof (rule pool_invI, goal_cases)
    case (1 k x)
    then show ?case using a [of k x] by simp
  next
    case (2 m x)
    then show ?case using b' [of x m] by simp
  next
    case (3 m)
    show ?case using c' [of m] by simp
  next
    case (4 m m')
    then show ?case using d' [of m m'] by simp
  qed
qed

lemma pool_inv_deallocate:
  assumes inv: "pool_inv pool" and ord: "orderly info_try pool (Release p)"
  shows "pool_inv (deallocate info_try p pool)"
proof (cases "p = nullptr")
  case True
  then show ?thesis using inv by (simp add: deallocate_def)
next
  case False
  let ?A = "allocated_blocks pool" and ?F = "free_blocks pool"
  from inv have a: "\<And>k b. ?A k = Some b \<Longrightarrow> host_ptr b = k"
    and b: "\<And>m x. x \<in> set (?F m) \<Longrightarrow> ?A (host_ptr x) = None"
    and c: "\<And>m. distinct (map host_ptr (?F m))"
    and d: "\<And>m m'. m \<noteq> m' \<Longrightarrow> host_ptr ` set (?F m) \<inter> host_ptr ` set (?F m') = {}"
    unfolding pool_inv_def by blast+
  show ?thesis
  proof (cases "?A p")
    case (Some me0)
    let ?me = "me0\<lparr>ttl := 0\<rparr>"
    have hp: "host_ptr ?me = p" using a [OF Some] by simp
    have eq: "deallocate info_try p pool =
        pool\<lparr>allocated_blocks := ?A(p := None),
             free_blocks := ?F(mode ?me := ?F (mode ?me) @ [?me])\<rparr>"
      using False Some by (simp add: deallocate_def Let_def)
    have nr: "host_ptr ?me \<notin> retired pool"
      unfolding retired_iff hp using b Some by fastforce
    show ?thesis
      unfolding eq
    proof (rule pool_inv_file [OF _ _ c d _ nr])
      fix k x assume "(?A(p := None)) k = Some x"
      then show "host_ptr x = k" using a by (auto split: if_splits)
    next
      fix m x assume "x \<in> set (?F m)"
      then show "(?A(p := None)) (host_ptr x) = None" using b by simp
    next
      show "(?A(p := None)) (host_ptr ?me) = None" using hp by simp
    qed
  next
    case None
    let ?me = "(info_try p)\<lparr>ttl := 0\<rparr>"
    have eq: "deallocate info_try p pool =
        pool\<lparr>allocated_blocks := ?A,
             free_blocks := ?F(mode ?me := ?F (mode ?me) @ [?me])\<rparr>"
      using False None by (simp add: deallocate_def Let_def)
    from ord False None
    have h: "host_ptr ?me \<notin> checked_out pool" "host_ptr ?me \<notin> retired pool"
      by (auto simp: checked_out_def)
    show ?thesis
      unfolding eq
    proof (rule pool_inv_file [OF _ _ c d _ h(2)])
      fix k x assume "?A k = Some x"
      then show "host_ptr x = k" by (rule a)
    next
      fix m x assume "x \<in> set (?F m)"
      then show "?A (host_ptr x) = None" by (rule b)
    next
      show "?A (host_ptr ?me) = None" using h(1) by (auto simp: checked_out_def)
    qed
  qed
qed

text \<open>Recording a block under its own host pointer, when that pointer is not retired.\<close>

lemma pool_inv_record:
  assumes inv: "pool_inv pool" and "host_ptr me \<notin> retired pool"
  shows "pool_inv (pool\<lparr>allocated_blocks := (allocated_blocks pool)(host_ptr me \<mapsto> me)\<rparr>)"
proof -
  let ?A = "allocated_blocks pool" and ?F = "free_blocks pool"
  from inv have a: "\<And>k b. ?A k = Some b \<Longrightarrow> host_ptr b = k"
    and b: "\<And>m x. x \<in> set (?F m) \<Longrightarrow> ?A (host_ptr x) = None"
    and c: "\<And>m. distinct (map host_ptr (?F m))"
    and d: "\<And>m m'. m \<noteq> m' \<Longrightarrow> host_ptr ` set (?F m) \<inter> host_ptr ` set (?F m') = {}"
    unfolding pool_inv_def by blast+
  have a': "host_ptr x = k" if "(?A(host_ptr me \<mapsto> me)) k = Some x" for k x
    using that a by (auto split: if_splits)
  have b': "(?A(host_ptr me \<mapsto> me)) (host_ptr x) = None" if "x \<in> set (?F m)" for x m
  proof -
    have "host_ptr x \<in> retired pool" using that unfolding retired_iff by blast
    then have "host_ptr x \<noteq> host_ptr me" using assms(2) by auto
    then show ?thesis using b [OF that] by simp
  qed
  show ?thesis
  proof (rule pool_invI, goal_cases)
    case (1 k x)
    then show ?case using a' [of k x] by simp
  next
    case (2 m x)
    then show ?case using b' [of x m] by simp
  next
    case (3 m)
    show ?case using c [of m] by simp
  next
    case (4 m m')
    then show ?case using d [of m m'] by simp
  qed
qed

lemma pool_inv_call:
  assumes "pool_inv pool" and "orderly info_try pool c"
  shows "pool_inv (call info_try c pool)"
proof (cases c)
  case (Acquire sz md)
  then show ?thesis using assms pool_inv_allocate by simp
next
  case (Release p)
  then show ?thesis using assms pool_inv_deallocate by simp
next
  case (Lookup p)
  show ?thesis
  proof (cases "allocated_blocks pool p")
    case (Some b)
    then show ?thesis using assms(1) by (simp add: Lookup get_block_info_def)
  next
    case None
    show ?thesis
    proof (cases "host_ptr (info_try p) = nullptr \<and> device_ptr (info_try p) = nullptr")
      case True
      then show ?thesis using assms(1) None by (simp add: Lookup get_block_info_def Let_def)
    next
      case False
      then have "host_ptr (info_try p) \<notin> retired pool"
        using assms(2) None by (auto simp: Lookup checked_out_def)
      from pool_inv_record [OF assms(1) this] False None
      show ?thesis by (auto simp: Lookup get_block_info_def Let_def)
    qed
  qed
next
  case (Update p me)
  then show ?thesis using assms pool_inv_record [of pool me] by (auto simp: update_block_def)
next
  case (Insert_external me)
  then show ?thesis using assms pool_inv_record [of pool me] by (simp add: insert_block_def)
qed

lemma pool_inv_calls:
  "pool_inv pool \<Longrightarrow> orderly_run info_try cs pool \<Longrightarrow> pool_inv (calls info_try cs pool)"
  by (induction cs arbitrary: pool) (simp_all add: pool_inv_call)

lemma not_exclusiveI:
  "allocated_blocks pool p = Some b \<Longrightarrow> x \<in> set (free_blocks pool md) \<Longrightarrow> host_ptr x = p \<Longrightarrow>
   \<not> exclusive pool"
  unfolding exclusive_def checked_out_def retired_def by blast

text \<open>
  Claim C3, as stated, fails: no operation that writes \<open>allocated_blocks\<close> looks at the
  free-lists, and a release files whatever it is given. Each of these runs ends with a
  pointer that is checked out and retired at once: a lookup of a retired pointer that
  the bookkeeping still knows; an insert_external of a retired block; an update under a
  retired key; an update that records, under pointer 1, a block with host pointer 2,
  followed by the release of pointer 1; a pointer released twice, then an acquire that
  reuses one of the two entries; and the release of a pointer the pool does not know,
  reported as a device-only block, while a device block is checked out under the null
  host pointer.
\<close>

theorem exclusivity_counterexample:
  "\<not> exclusive (calls host_info [Acquire 64 CS_ALLOC_HOST, Release 1, Lookup 1] empty_pool)
   \<and> \<not> exclusive (calls no_info [Acquire 64 CS_ALLOC_HOST, Release 1,
         Insert_external \<lparr>host_ptr = 1, device_ptr = 0, size_b = 64, mode = CS_ALLOC_HOST, ttl = 0\<rparr>]
         empty_pool)
   \<and> \<not> exclusive (calls no_info [Acquire 64 CS_ALLOC_HOST, Release 1,
         Update 1 \<lparr>host_ptr = 1, device_ptr = 0, size_b = 64, mode = CS_ALLOC_HOST, ttl = 0\<rparr>]
         empty_pool)
   \<and> \<not> exclusive (calls no_info [Acquire 64 CS_ALLOC_HOST, Acquire 64 CS_ALLOC_HOST,
         Update 1 \<lparr>host_ptr = 2, device_ptr = 0, size_b = 64, mode = CS_ALLOC_HOST, ttl = 0\<rparr>,
         Release 1] empty_pool)
   \<and> \<not> exclusive (calls host_info [Acquire 64 CS_ALLOC_HOST, Release 1, Release 1,
         Acquire 64 CS_ALLOC_HOST] empty_pool)
   \<and> \<not> exclusive (calls device_only_info [Acquire 64 CS_ALLOC_DEVICE, Release 5] empty_pool)"
proof -
  let ?B = "\<lparr>host_ptr = 1, device_ptr = 0, size_b = 64, mode = CS_ALLOC_HOST, ttl = 0\<rparr>"
  let ?B2 = "\<lparr>host_ptr = 2, device_ptr = 0, size_b = 64, mode = CS_ALLOC_HOST, ttl = 0\<rparr>"
  let ?p1 = "calls host_info [Acquire 64 CS_ALLOC_HOST, Release 1, Lookup 1] empty_pool"
  let ?p2 = "calls no_info [Acquire 64 CS_ALLOC_HOST, Release 1, Insert_external ?B] empty_pool"
  let ?p3 = "calls no_info [Acquire 64 CS_ALLOC_HOST, Release 1, Update 1 ?B] empty_pool"
  let ?p4 = "calls no_info [Acquire 64 CS_ALLOC_HOST, Acquire 64 CS_ALLOC_HOST, Update 1 ?B2,
      Release 1] empty_pool"
  let ?p5 = "calls host_info [Acquire 64 CS_ALLOC_HOST, Release 1, Release 1,
      Acquire 64 CS_ALLOC_HOST] empty_pool"
  let ?p6 = "calls device_only_info [Acquire 64 CS_ALLOC_DEVICE, Release 5] empty_pool"
  have "allocated_blocks ?p1 1 = Some ?B" "free_blocks ?p1 CS_ALLOC_HOST = [?B]"
    by (simp_all add: pool_eval host_info_def)
  then have 1: "\<not> exclusive ?p1" by (intro not_exclusiveI [of _ 1 ?B ?B CS_ALLOC_HOST]) simp_all
  have "allocated_blocks ?p2 1 = Some ?B" "free_blocks ?p2 CS_ALLOC_HOST = [?B]"
    by (simp_all add: pool_eval insert_block_def)
  then have 2: "\<not> exclusive ?p2" by (intro not_exclusiveI [of _ 1 ?B ?B CS_ALLOC_HOST]) simp_all
  have "allocated_blocks ?p3 1 = Some ?B" "free_blocks ?p3 CS_ALLOC_HOST = [?B]"
    by (simp_all add: pool_eval update_block_def)
  then have 3: "\<not> exclusive ?p3" by (intro not_exclusiveI [of _ 1 ?B ?B CS_ALLOC_HOST]) simp_all
  have "allocated_blocks ?p4 2 = Some ?B2" "free_blocks ?p4 CS_ALLOC_HOST = [?B2]"
    by (simp_all add: pool_eval update_block_def)
  then have 4: "\<not> exclusive ?p4" by (intro not_exclusiveI [of _ 2 ?B2 ?B2 CS_ALLOC_HOST]) simp_all
  have "allocated_blocks ?p5 1 = Some (?B\<lparr>ttl := 1\<rparr>)" "free_blocks ?p5 CS_ALLOC_HOST = [?B\<lparr>ttl := 1\<rparr>]"
    by (simp_all add: pool_eval host_info_def)
  then have 5: "\<not> exclusive ?p5"
    by (intro not_exclusiveI [of _ 1 "?B\<lparr>ttl := 1\<rparr>" "?B\<lparr>ttl := 1\<rparr>" CS_ALLOC_HOST]) simp_all
  have "allocated_blocks ?p6 0 = Some \<lparr>host_ptr = 0, device_ptr = 1, size_b = 64, mode = CS_ALLOC_DEVICE, ttl = 0\<rparr>"
    "free_blocks ?p6 CS_ALLOC_DEVICE = [\<lparr>host_ptr = 0, device_ptr = 5, size_b = 64, mode = CS_ALLOC_DEVICE, ttl = 0\<rparr>]"
    by (simp_all add: pool_eval device_only_info_def)
  then have 6: "\<not> exclusive ?p6"
    by (intro not_exclusiveI [of _ 0 _ "\<lparr>host_ptr = 0, device_ptr = 5, size_b = 64, mode = CS_ALLOC_DEVICE, ttl = 0\<rparr>" CS_ALLOC_DEVICE]) simp_all
  show ?thesis using 1 2 3 4 5 6 by blast
qed

text \<open>
  Claim C3, amended. In every pool reached from the empty pool by an orderly run, that
  is a run of acquires, releases, lookups, updates and insert_externals in which no call
  records a block under a key that a free-list holds, no update records a block under a
  key other than its host pointer, no release files a block whose host pointer the pool
  holds already, and no fresh allocation gets a host pointer that a free-list holds, no
  pointer is both a key of \<open>allocated_blocks\<close> and the host pointer of a block in a
  free-list.
\<close>

theorem orderly_calls_exclusive:
  assumes "orderly_run info_try cs empty_pool"
  shows "exclusive (calls info_try cs empty_pool)"
  using pool_inv_exclusive [OF pool_inv_calls [OF pool_inv_empty assms]] .

theorem orderly_calls_exclusive_witness:
  "exclusive (calls host_info mixed_run empty_pool)"
proof -
  have "orderly_run host_info mixed_run empty_pool"
    unfolding mixed_run_def
    by (auto simp: pool_eval host_info_def checked_out_def retired_iff insert_block_def
        update_block_def split: if_splits)
  then show ?thesis by (rule orderly_calls_exclusive)
qed

section \<open>Properties of the connectivity builder\<close>

subsection \<open>The two passes of a build, in general\<close>

lemma fold_concat_map: "fold (\<lambda>x. fold f (g x)) xs s = fold f (concat (map g xs)) s"
  by (induction xs arbitrary: s) simp_all

lemma cnt_Nil [simp]: "cnt c [] = 0"
  by (simp add: cnt_def)

lemma cnt_Cons: "cnt c (e # es) = (if fst e = c then 1 else 0) + cnt c es"
  by (simp add: cnt_def)

lemma cnt_append [simp]: "cnt c (es @ fs) = cnt c es + cnt c fs"
  by (simp add: cnt_def)

lemma entries_Nil [simp]: "entries c [] = []"
  by (simp add: entries_def)

lemma entries_append [simp]: "entries c (es @ fs) = entries c es @ entries c fs"
  by (simp add: entries_def)

lemma length_entries [simp]: "length (entries c es) = cnt c es"
  by (simp add: entries_def cnt_def)

lemma entries_concat: "entries c (concat (map g xs)) = concat (map (\<lambda>x. entries c (g x)) xs)"
  by (induction xs) simp_all

lemma count_events:
  assumes "\<forall>e \<in> set es. fst e < n" and "length idx = n + 1"
  shows "length (fold count_event es idx) = n + 1
       \<and> fold count_event es idx ! 0 = idx ! 0
       \<and> (\<forall>c < n. fold count_event es idx ! (c + 1) = idx ! (c + 1) + int (cnt c es))"
  using assms
proof (induction es arbitrary: idx)
  case Nil
  then show ?case by simp
next
  case (Cons e es)
  let ?idx1 = "count_event e idx"
  have e: "fst e < n" using Cons.prems(1) by simp
  have len: "length ?idx1 = n + 1" using Cons.prems(2) by (simp add: count_event_def)
  have z: "?idx1 ! 0 = idx ! 0" by (simp add: count_event_def)
  have s: "?idx1 ! (c + 1) = idx ! (c + 1) + (if fst e = c then 1 else 0)" if "c < n" for c
    using that e Cons.prems(2) by (simp add: count_event_def nth_list_update)
  from Cons.IH [OF _ len] Cons.prems(1)
  have IH: "length (fold count_event es ?idx1) = n + 1"
    "fold count_event es ?idx1 ! 0 = ?idx1 ! 0"
    "\<forall>c < n. fold count_event es ?idx1 ! (c + 1) = ?idx1 ! (c + 1) + int (cnt c es)"
    by simp_all
  show ?case using IH z s by (simp add: cnt_Cons)
qed

lemma position_index_upto:
  fixes idx :: "int list"
  assumes "length idx = n + 1" and "k \<le> n"
  shows "length (fold (\<lambda>j idx. idx[j + 1 := idx ! j + idx ! (j + 1)]) [0..<k] (idx[0 := 1])) = n + 1
     \<and> (\<forall>j \<le> k. fold (\<lambda>j idx. idx[j + 1 := idx ! j + idx ! (j + 1)]) [0..<k] (idx[0 := 1]) ! j
            = 1 + (\<Sum>c < j. idx ! (c + 1)))
     \<and> (\<forall>j. k < j \<longrightarrow> j \<le> n \<longrightarrow>
            fold (\<lambda>j idx. idx[j + 1 := idx ! j + idx ! (j + 1)]) [0..<k] (idx[0 := 1]) ! j = idx ! j)"
  using assms(2)
proof (induction k)
  case 0
  then show ?case using assms(1) by simp
next
  case (Suc k)
  let ?r = "fold (\<lambda>j idx. idx[j + 1 := idx ! j + idx ! (j + 1)]) [0..<k] (idx[0 := 1])"
  from Suc have IH: "length ?r = n + 1" "\<forall>j \<le> k. ?r ! j = 1 + (\<Sum>c < j. idx ! (c + 1))"
    "\<forall>j. k < j \<longrightarrow> j \<le> n \<longrightarrow> ?r ! j = idx ! j" by simp_all
  have step: "fold (\<lambda>j idx. idx[j + 1 := idx ! j + idx ! (j + 1)]) [0..<Suc k] (idx[0 := 1])
      = ?r[k + 1 := ?r ! k + ?r ! (k + 1)]" by simp
  have "?r ! k = 1 + (\<Sum>c < k. idx ! (c + 1))" using IH(2) by blast
  moreover have "?r ! (k + 1) = idx ! (k + 1)" using IH(3) Suc.prems by simp
  ultimately have new: "?r ! k + ?r ! (k + 1) = 1 + (\<Sum>c < Suc k. idx ! (c + 1))"
    by simp
  show ?case
    unfolding step using IH new Suc.prems
    by (auto simp: nth_list_update less_Suc_eq_le le_Suc_eq)
qed

lemma build_position_index_sums:
  assumes "length idx = n + 1"
  shows "length (build_position_index n idx) = n + 1
       \<and> (\<forall>j \<le> n. build_position_index n idx ! j = 1 + (\<Sum>c < j. idx ! (c + 1)))"
  using position_index_upto [OF assms, of n] by (simp add: build_position_index_def)

lemma fill_events:
  assumes "\<forall>e \<in> set es. fst e < n"
    and pos: "\<forall>c < n. 0 \<le> start c"
    and "\<forall>c < n. cnt c es \<le> cap c"
    and fit: "\<forall>c < n. start c + int (cap c) \<le> int (length lst0)"
    and sep: "\<forall>c c'. c < c' \<longrightarrow> c' < n \<longrightarrow> start c + int (cap c) \<le> start c'"
  shows "length (fst (fold (fill_event start) es (lst0, replicate n 0))) = length lst0
       \<and> snd (fold (fill_event start) es (lst0, replicate n 0)) = map (\<lambda>c. int (cnt c es)) [0..<n]
       \<and> (\<forall>c < n. \<forall>k < cnt c es.
            fst (fold (fill_event start) es (lst0, replicate n 0)) ! nat (start c + int k)
              = entries c es ! k)"
  using assms(1,3)
proof (induction es rule: rev_induct)
  case Nil
  show ?case by (simp add: list_eq_iff_nth_eq)
next
  case (snoc e es)
  let ?s = "fold (fill_event start) es (lst0, replicate n 0)"
  let ?lst = "fst ?s" and ?count = "snd ?s"
  have c0: "fst e < n" using snoc.prems(1) by simp
  have capes: "\<forall>c < n. cnt c es \<le> cap c"
    using snoc.prems(2) by auto
  from snoc.IH [OF _ capes] snoc.prems(1)
  have len: "length ?lst = length lst0"
    and cnts: "?count = map (\<lambda>c. int (cnt c es)) [0..<n]"
    and ent: "\<And>c k. c < n \<Longrightarrow> k < cnt c es \<Longrightarrow> ?lst ! nat (start c + int k) = entries c es ! k"
    by simp_all
  let ?c0 = "fst e"
  let ?p0 = "start ?c0 + int (cnt ?c0 es)"
  have count_c0: "?count ! ?c0 = int (cnt ?c0 es)" using cnts c0 by simp
  have step: "fold (fill_event start) (es @ [e]) (lst0, replicate n 0)
      = (?lst[nat ?p0 := snd e], ?count[?c0 := int (cnt ?c0 es) + 1])"
    by (simp add: fill_event_def count_c0)
  have room: "cnt ?c0 es < cap ?c0"
    using snoc.prems(2) c0 by (auto simp: cnt_def)
  have p0_nonneg: "0 \<le> ?p0" using pos c0 by simp
  have p0_len: "nat ?p0 < length ?lst"
    using fit c0 room p0_nonneg unfolding len by (metis add_less_cancel_left less_le_trans nat_less_iff of_nat_less_iff)
  have A: "length (fst (fold (fill_event start) (es @ [e]) (lst0, replicate n 0))) = length lst0"
    unfolding step using len by simp
  have B: "snd (fold (fill_event start) (es @ [e]) (lst0, replicate n 0))
      = map (\<lambda>c. int (cnt c (es @ [e]))) [0..<n]"
    unfolding step using cnts c0
    by (auto simp: list_eq_iff_nth_eq nth_list_update cnt_def)
  have C: "fst (fold (fill_event start) (es @ [e]) (lst0, replicate n 0)) ! nat (start c + int k)
              = entries c (es @ [e]) ! k"
    if c: "c < n" and k: "k < cnt c (es @ [e])" for c k
  proof (cases "c = ?c0 \<and> k = cnt ?c0 es")
    case True
    then have "entries c (es @ [e]) ! k = snd e"
      by (simp add: entries_def cnt_def nth_append)
    then show ?thesis unfolding step using True p0_len by simp
  next
    case False
    then have k': "k < cnt c es" using k by (auto simp: cnt_def split: if_splits)
    have ne: "nat (start c + int k) \<noteq> nat ?p0"
    proof -
      have nn: "0 \<le> start c + int k" using pos c by simp
      have "start c + int k \<noteq> ?p0"
      proof (cases "c = ?c0")
        case True
        then show ?thesis using False by simp
      next
        case neq: False
        show ?thesis
        proof (cases "c < ?c0")
          case True
          have "start c + int k < start c + int (cap c)" using k' capes c by auto
          also have "\<dots> \<le> start ?c0" using sep True c0 by blast
          finally show ?thesis by simp
        next
          case False
          then have "?c0 < c" using neq by simp
          then have "start ?c0 + int (cap ?c0) \<le> start c" using sep c by blast
          then show ?thesis using room by simp
        qed
      qed
      then show ?thesis using nn p0_nonneg by simp
    qed
    have "entries c (es @ [e]) ! k = entries c es ! k"
      using k' by (simp add: nth_append)
    then show ?thesis unfolding step using ne ent [OF c k'] by simp
  qed
  show ?case using A B C by blast
qed

text \<open>The rows of the list are the entries of the events, row by row.\<close>

lemma fill_events_rows:
  assumes "\<forall>e \<in> set es. fst e < n"
    and pos: "\<forall>c < n. 0 \<le> start c"
    and fit: "\<forall>c < n. start c + int (cnt c es) \<le> int (length lst0)"
    and sep: "\<forall>c c'. c < c' \<longrightarrow> c' < n \<longrightarrow> start c + int (cnt c es) \<le> start c'"
    and c: "c < n"
  shows "map (\<lambda>k. fst (fold (fill_event start) es (lst0, replicate n 0)) ! k)
           [nat (start c)..<nat (start c + int (cnt c es))] = entries c es"
proof -
  let ?lst = "fst (fold (fill_event start) es (lst0, replicate n 0))"
  have ent: "\<forall>c < n. \<forall>k < cnt c es. ?lst ! nat (start c + int k) = entries c es ! k"
    using fill_events [OF assms(1) pos _ fit sep] by simp
  have s: "0 \<le> start c" using pos c by simp
  have len: "length [nat (start c)..<nat (start c + int (cnt c es))] = cnt c es"
    using s by (simp add: nat_add_distrib)
  show ?thesis
  proof (rule nth_equalityI)
    show "length (map (\<lambda>k. ?lst ! k) [nat (start c)..<nat (start c + int (cnt c es))])
        = length (entries c es)" using len by simp
  next
    fix i assume "i < length (map (\<lambda>k. ?lst ! k) [nat (start c)..<nat (start c + int (cnt c es))])"
    then have i: "i < cnt c es" using len by simp
    then have "[nat (start c)..<nat (start c + int (cnt c es))] ! i = nat (start c) + i"
      using s by (simp add: nat_add_distrib)
    moreover have "nat (start c) + i = nat (start c + int i)" using s by (simp add: nat_add_distrib)
    ultimately show "map (\<lambda>k. ?lst ! k) [nat (start c)..<nat (start c + int (cnt c es))] ! i
        = entries c es ! i"
      using ent c i len by simp
  qed
qed

subsection \<open>Cell to internal faces connectivity\<close>

lemma cells_numbered_face:
  assumes "cells_numbered mesh" and "i < n_i_faces mesh"
  shows "1 \<le> i_face_cells mesh ! (i * 2)" "1 \<le> i_face_cells mesh ! (i * 2 + 1)"
proof -
  have "i * 2 < length (i_face_cells mesh)" "i * 2 + 1 < length (i_face_cells mesh)"
    using assms by (simp_all add: cells_numbered_def)
  then show "1 \<le> i_face_cells mesh ! (i * 2)" "1 \<le> i_face_cells mesh ! (i * 2 + 1)"
    using assms(1) by (simp_all add: cells_numbered_def)
qed

lemma count_faces_step_events:
  assumes "1 \<le> i_face_cells mesh ! (i * 2)" and "1 \<le> i_face_cells mesh ! (i * 2 + 1)"
  shows "count_faces_step mesh i idx = fold count_event (face_events mesh i) idx"
proof -
  have "Suc (nat (x - 1)) = nat x" if "1 \<le> x" for x :: int using that by simp
  then show ?thesis
    using assms by (simp add: count_faces_step_def face_events_def count_event_def Let_def)
qed

lemma fill_faces_step_events:
  "fill_faces_step mesh idx i s = fold (fill_event (\<lambda>c. idx ! c - 1)) (face_events mesh i) s"
proof -
  have h: "a + b - 1 = a - 1 + b" for a b :: int by simp
  show ?thesis
    by (cases s) (simp add: fill_faces_step_def face_events_def fill_event_def Let_def h)
qed

lemma face_events_rows:
  assumes "1 \<le> i_face_cells mesh ! (i * 2)" and "1 \<le> i_face_cells mesh ! (i * 2 + 1)"
  shows "\<forall>e \<in> set (face_events mesh i). fst e < n_cells mesh"
  using assms by (auto simp: face_events_def Let_def)

lemma face_events_entries:
  assumes "1 \<le> i_face_cells mesh ! (i * 2)" and "1 \<le> i_face_cells mesh ! (i * 2 + 1)"
    and "c < n_cells mesh"
  shows "entries c (face_events mesh i) =
      (if i_face_cells mesh ! (i * 2) - 1 = int c then [int i + 1] else [])
    @ (if i_face_cells mesh ! (i * 2 + 1) - 1 = int c then [- (int i + 1)] else [])"
  using assms by (auto simp: face_events_def entries_def Let_def)

lemma sum_cnt_mono:
  "c < c' \<Longrightarrow> (\<Sum>x < c. int (cnt x es)) + int (cnt c es) \<le> (\<Sum>x < c'. int (cnt x es))"
proof -
  assume "c < c'"
  then have "{..<Suc c} \<subseteq> {..<c'}" by auto
  then have "(\<Sum>x < Suc c. int (cnt x es)) \<le> (\<Sum>x < c'. int (cnt x es))"
    by (intro sum_mono2) auto
  then show ?thesis by simp
qed

lemma get_cell_i_faces_connectivity_rows:
  assumes wf: "cells_numbered mesh"
    and res: "get_cell_i_faces_connectivity mesh = (cell_faces_idx, cell_faces_lst)"
  shows "length cell_faces_idx = n_cells mesh + 1"
    and "cell_faces_idx ! 0 = 1"
    and "int (length cell_faces_lst) = cell_faces_idx ! n_cells mesh - 1"
    and "c < n_cells mesh \<Longrightarrow> row1 cell_faces_idx cell_faces_lst c = cell_face_entries mesh c"
proof -
  let ?n = "n_cells mesh" and ?nf = "n_i_faces mesh"
  let ?es = "concat (map (face_events mesh) [0..<?nf])"
  let ?idx1 = "fold (count_faces_step mesh) [0..<?nf] (replicate (?n + 1) 0)"
  let ?idx = "build_position_index ?n ?idx1"
  let ?lst0 = "replicate (nat (?idx ! ?n - 1)) (0::int)"
  let ?fin = "fold (fill_faces_step mesh ?idx) [0..<?nf] (?lst0, replicate ?n 0)"
  have face: "1 \<le> i_face_cells mesh ! (i * 2)" "1 \<le> i_face_cells mesh ! (i * 2 + 1)"
    if "i \<in> set [0..<?nf]" for i
    using cells_numbered_face [OF wf, of i] that by simp_all
  have rows: "\<forall>e \<in> set ?es. fst e < ?n"
    using face_events_rows face by fastforce
  have stepeq: "count_faces_step mesh i = fold count_event (face_events mesh i)"
    if "i \<in> set [0..<?nf]" for i
    using count_faces_step_events [OF face [OF that]] by (intro ext)
  have "?idx1 = fold (\<lambda>i. fold count_event (face_events mesh i)) [0..<?nf] (replicate (?n + 1) 0)"
    by (rule fold_cong [OF refl refl stepeq])
  then have idx1: "?idx1 = fold count_event ?es (replicate (?n + 1) 0)"
    by (simp add: fold_concat_map)
  have len1: "length ?idx1 = ?n + 1" and cnt1: "\<forall>c < ?n. ?idx1 ! (c + 1) = int (cnt c ?es)"
    unfolding idx1 using count_events [OF rows, of "replicate (?n + 1) 0"] by simp_all
  have lenI: "length ?idx = ?n + 1"
    and sums: "\<forall>j \<le> ?n. ?idx ! j = 1 + (\<Sum>c < j. ?idx1 ! (c + 1))"
    using build_position_index_sums [OF len1] by simp_all
  have start: "?idx ! j - 1 = (\<Sum>c < j. int (cnt c ?es))" if "j \<le> ?n" for j
  proof -
    have "(\<Sum>c < j. ?idx1 ! (c + 1)) = (\<Sum>c < j. int (cnt c ?es))"
      using cnt1 that by (intro sum.cong) auto
    then show ?thesis using sums that by simp
  qed
  have next_start: "?idx ! (c + 1) - 1 = (?idx ! c - 1) + int (cnt c ?es)" if "c < ?n" for c
    using start [of c] start [of "c + 1"] that by simp
  have fin: "?fin = fold (fill_event (\<lambda>c. ?idx ! c - 1)) ?es (?lst0, replicate ?n 0)"
    by (simp add: fill_faces_step_events [abs_def] fold_concat_map)
  have pos: "\<forall>c < ?n. 0 \<le> ?idx ! c - 1"
    using start by (simp add: sum_nonneg)
  have total: "int (length ?lst0) = (\<Sum>c < ?n. int (cnt c ?es))"
    using start [of ?n] by (simp add: sum_nonneg)
  have fit: "\<forall>c < ?n. (?idx ! c - 1) + int (cnt c ?es) \<le> int (length ?lst0)"
  proof (intro allI impI)
    fix c assume c: "c < ?n"
    have "(\<Sum>x < c. int (cnt x ?es)) + int (cnt c ?es) \<le> (\<Sum>x < Suc c. int (cnt x ?es))" by simp
    also have "\<dots> \<le> (\<Sum>x < ?n. int (cnt x ?es))"
      using c by (intro sum_mono2) auto
    finally show "(?idx ! c - 1) + int (cnt c ?es) \<le> int (length ?lst0)"
      using start [of c] c total by simp
  qed
  have sep: "\<forall>c c'. c < c' \<longrightarrow> c' < ?n \<longrightarrow> (?idx ! c - 1) + int (cnt c ?es) \<le> ?idx ! c' - 1"
    using sum_cnt_mono [of _ _ ?es] start by simp
  have "get_cell_i_faces_connectivity mesh = (?idx, fst ?fin)"
    by (simp only: get_cell_i_faces_connectivity_def Let_def case_prod_beta)
  then have eq: "cell_faces_idx = ?idx" "cell_faces_lst = fst ?fin"
    using res by simp_all
  show "length cell_faces_idx = ?n + 1" using lenI eq by simp
  show "cell_faces_idx ! 0 = 1" using start [of 0] eq by simp
  have L: "length (fst ?fin) = length ?lst0"
    unfolding fin using fill_events [OF rows pos _ fit sep] by simp
  have "int (length (fst ?fin)) = int (length ?lst0)" by (simp only: L)
  also have "\<dots> = (\<Sum>c < ?n. int (cnt c ?es))" by (rule total)
  also have "\<dots> = ?idx ! ?n - 1" using start [of ?n] by simp
  finally show "int (length cell_faces_lst) = cell_faces_idx ! ?n - 1"
    unfolding eq .
  show "row1 cell_faces_idx cell_faces_lst c = cell_face_entries mesh c" if c: "c < ?n"
  proof -
    have "row1 ?idx (fst ?fin) c =
        map (\<lambda>k. fst ?fin ! k) [nat (?idx ! c - 1)..<nat ((?idx ! c - 1) + int (cnt c ?es))]"
      by (simp only: row1_def next_start [OF c])
    also have "\<dots> = entries c ?es"
      unfolding fin by (rule fill_events_rows [OF rows pos fit sep c])
    also have "\<dots> = concat (map (\<lambda>i. entries c (face_events mesh i)) [0..<?nf])"
      by (rule entries_concat)
    also have "\<dots> = cell_face_entries mesh c"
      unfolding cell_face_entries_def
    proof (rule arg_cong [where f = concat], rule map_cong [OF refl])
      fix i assume "i \<in> set [0..<?nf]"
      from face_events_entries [OF face [OF this] c]
      show "entries c (face_events mesh i) =
          (if i_face_cells mesh ! (i * 2) - 1 = int c then [int i + 1] else [])
        @ (if i_face_cells mesh ! (i * 2 + 1) - 1 = int c then [- (int i + 1)] else [])" .
    qed
    finally show ?thesis using eq by simp
  qed
qed

text \<open>
  Claim C6, as stated, fails: the test that admits a face into a row is on the row's own
  cell, not on the opposing cell. In the mesh of one cell whose only internal face leads
  to a ghost cell, the face is listed in the row of cell 0 although the opposing cell's
  index 1 is not below the cell count 1.
\<close>

theorem ghost_opposite_cell_counterexample:
  "get_cell_i_faces_connectivity ghost_face_mesh = ([1, 2], [1])
   \<and> row1 [1, 2] [1] 0 = [1]
   \<and> \<not> i_face_cells ghost_face_mesh ! 1 - 1 < int (n_cells ghost_face_mesh)"
  by (simp add: get_cell_i_faces_connectivity_def ghost_face_mesh_def count_faces_step_def
      build_position_index_def fill_faces_step_def row1_def Let_def)

text \<open>
  Claim C6, amended. For a well-formed face to cells array, the index has one slot per
  local cell plus one (ghost cells have no row), starts at 1 and ends at the list's
  length plus 1; and the row of a local cell \<open>c\<close> holds, going through the internal
  faces in order, \<open>i + 1\<close> for each face \<open>i\<close> whose first cell is \<open>c\<close> and \<open>-(i + 1)\<close>
  for each face whose second cell is \<open>c\<close>, whatever the opposing cell is.
\<close>

theorem cell_i_faces_rows:
  assumes "cells_numbered mesh"
    and "get_cell_i_faces_connectivity mesh = (cell_faces_idx, cell_faces_lst)"
    and "c < n_cells mesh"
  shows "row1 cell_faces_idx cell_faces_lst c = cell_face_entries mesh c
       \<and> length cell_faces_idx = n_cells mesh + 1
       \<and> cell_faces_idx ! 0 = 1
       \<and> int (length cell_faces_lst) = cell_faces_idx ! n_cells mesh - 1"
  using get_cell_i_faces_connectivity_rows [OF assms(1,2)] assms(3) by simp

theorem cell_i_faces_rows_witness:
  "row1 (fst (get_cell_i_faces_connectivity three_cell_mesh))
        (snd (get_cell_i_faces_connectivity three_cell_mesh)) 1 = [- 1, 2]"
proof -
  have h1: "cells_numbered three_cell_mesh"
    by (simp add: cells_numbered_def three_cell_mesh_def)
  have h2: "get_cell_i_faces_connectivity three_cell_mesh =
      (fst (get_cell_i_faces_connectivity three_cell_mesh),
       snd (get_cell_i_faces_connectivity three_cell_mesh))" by simp
  have h3: "1 < n_cells three_cell_mesh" by (simp add: three_cell_mesh_def)
  have e: "cell_face_entries three_cell_mesh 1 = [- 1, 2]"
    by (simp add: cell_face_entries_def three_cell_mesh_def upt_rec)
  from cell_i_faces_rows [OF h1 h2 h3] show ?thesis by (simp only: e)
qed

subsection \<open>Reversal of the ghost cell to vertices connectivity\<close>

lemma set_new_targets: "set (new_targets seen vs) = set vs - set seen"
  by (induction vs arbitrary: seen) auto

lemma distinct_new_targets: "distinct (new_targets seen vs)"
  by (induction vs arbitrary: seen) (auto simp: set_new_targets)

lemma entries_tagged:
  "distinct ws \<Longrightarrow> entries v (map (\<lambda>w. (w, x)) ws) = (if v \<in> set ws then [x] else [])"
  by (induction ws) (auto simp: entries_def)

lemma entries_new_targets:
  "entries v (map (\<lambda>w. (w, x)) (new_targets [] vs)) = (if v \<in> set vs then [x] else [])"
  using entries_tagged [OF distinct_new_targets, of v x "[]" vs] by (simp add: set_new_targets)

lemma mark_all_length [simp]: "length (fold (\<lambda>v ch. ch[v := x]) vs ch) = length ch"
  by (induction vs arbitrary: ch) simp_all

lemma mark_all_nth:
  "v < length ch \<Longrightarrow>
   fold (\<lambda>v ch. ch[v := x]) vs ch ! v = (if v \<in> set vs then x else ch ! v)"
  by (induction vs arbitrary: ch) (auto simp: nth_list_update)

lemma checked_fold:
  assumes "\<forall>v \<in> set vs. v < length ch"
    and "\<forall>v < length ch. ch ! v = int i \<longleftrightarrow> v \<in> set seen"
  shows "fold (checked_event f i) vs (S, ch) =
      (fold f (map (\<lambda>v. (v, int i)) (new_targets seen vs)) S, fold (\<lambda>v ch. ch[v := int i]) vs ch)"
  using assms
proof (induction vs arbitrary: S ch seen)
  case Nil
  then show ?case by simp
next
  case (Cons v vs)
  have v: "v < length ch" using Cons.prems(1) by simp
  show ?case
  proof (cases "ch ! v = int i")
    case True
    then have seen: "v \<in> set seen" using Cons.prems(2) v by simp
    have same: "ch[v := int i] = ch" using True by (metis list_update_id)
    have "checked_event f i v (S, ch) = (S, ch)" using True by (simp add: checked_event_def)
    then show ?thesis
      using Cons.IH [of ch seen S] Cons.prems seen same by simp
  next
    case False
    then have seen: "v \<notin> set seen" using Cons.prems(2) v by simp
    have step: "checked_event f i v (S, ch) = (f (v, int i) S, ch[v := int i])"
      using False by (simp add: checked_event_def)
    have rel: "\<forall>w < length (ch[v := int i]). (ch[v := int i]) ! w = int i \<longleftrightarrow> w \<in> set (v # seen)"
      using Cons.prems(2) v by (auto simp: nth_list_update)
    have "fold (checked_event f i) vs (f (v, int i) S, ch[v := int i]) =
        (fold f (map (\<lambda>v. (v, int i)) (new_targets (v # seen) vs)) (f (v, int i) S),
         fold (\<lambda>v ch. ch[v := int i]) vs (ch[v := int i]))"
      using Cons.prems(1) by (intro Cons.IH [OF _ rel]) simp
    then show ?thesis using seen step by simp
  qed
qed

lemma checked_rows:
  assumes "sorted_wrt (<) ids"
    and "\<forall>i \<in> set ids. \<forall>v \<in> set (tg i). v < n"
    and "length ch = n"
    and "\<forall>v < n. \<forall>i \<in> set ids. ch ! v < int i"
  shows "fst (fold (\<lambda>i. fold (checked_event f i) (tg i)) ids (S, ch)) =
      fold f (concat (map (\<lambda>i. map (\<lambda>v. (v, int i)) (new_targets [] (tg i))) ids)) S"
  using assms
proof (induction ids arbitrary: S ch)
  case Nil
  then show ?case by simp
next
  case (Cons i ids)
  let ?ch' = "fold (\<lambda>v ch. ch[v := int i]) (tg i) ch"
  let ?S' = "fold f (map (\<lambda>v. (v, int i)) (new_targets [] (tg i))) S"
  have r1: "\<forall>v \<in> set (tg i). v < length ch" using Cons.prems(2,3) by simp
  have r2: "\<forall>v < length ch. ch ! v = int i \<longleftrightarrow> v \<in> set []"
    using Cons.prems(3,4) by auto
  have row: "fold (checked_event f i) (tg i) (S, ch) = (?S', ?ch')"
    by (rule checked_fold [OF r1 r2])
  have b: "\<forall>v < n. \<forall>i' \<in> set ids. ?ch' ! v < int i'"
  proof (intro allI impI ballI)
    fix v i' assume v: "v < n" and i': "i' \<in> set ids"
    have "i < i'" using Cons.prems(1) i' by simp
    moreover have "ch ! v < int i'" using Cons.prems(4) v i' by simp
    ultimately show "?ch' ! v < int i'"
      using v Cons.prems(3) by (simp add: mark_all_nth)
  qed
  have "fst (fold (\<lambda>i. fold (checked_event f i) (tg i)) ids (?S', ?ch')) =
      fold f (concat (map (\<lambda>i. map (\<lambda>v. (v, int i)) (new_targets [] (tg i))) ids)) ?S'"
    using Cons.prems(1,2,3) b by (intro Cons.IH) simp_all
  then show ?case using row by simp
qed

lemma entries_checked_rows:
  "entries v (concat (map (\<lambda>i. map (\<lambda>w. (w, int i)) (new_targets [] (tg i))) ids))
     = map int (filter (\<lambda>i. v \<in> set (tg i)) ids)"
  by (induction ids) (simp_all add: entries_new_targets)

lemma prefix_sums_upto:
  fixes idx :: "int list"
  assumes "length idx = n + 1" and "k \<le> n"
  shows "length (fold (\<lambda>i idx. idx[i + 1 := idx ! (i + 1) + idx ! i]) [0..<k] idx) = n + 1
     \<and> (\<forall>j \<le> k. fold (\<lambda>i idx. idx[i + 1 := idx ! (i + 1) + idx ! i]) [0..<k] idx ! j
            = idx ! 0 + (\<Sum>c < j. idx ! (c + 1)))
     \<and> (\<forall>j. k < j \<longrightarrow> j \<le> n \<longrightarrow>
            fold (\<lambda>i idx. idx[i + 1 := idx ! (i + 1) + idx ! i]) [0..<k] idx ! j = idx ! j)"
  using assms(2)
proof (induction k)
  case 0
  then show ?case using assms(1) by simp
next
  case (Suc k)
  let ?r = "fold (\<lambda>i idx. idx[i + 1 := idx ! (i + 1) + idx ! i]) [0..<k] idx"
  from Suc have IH: "length ?r = n + 1" "\<forall>j \<le> k. ?r ! j = idx ! 0 + (\<Sum>c < j. idx ! (c + 1))"
    "\<forall>j. k < j \<longrightarrow> j \<le> n \<longrightarrow> ?r ! j = idx ! j" by simp_all
  have step: "fold (\<lambda>i idx. idx[i + 1 := idx ! (i + 1) + idx ! i]) [0..<Suc k] idx
      = ?r[k + 1 := ?r ! (k + 1) + ?r ! k]" by simp
  have "?r ! k = idx ! 0 + (\<Sum>c < k. idx ! (c + 1))" using IH(2) by blast
  moreover have "?r ! (k + 1) = idx ! (k + 1)" using IH(3) Suc.prems by simp
  ultimately have new: "?r ! (k + 1) + ?r ! k = idx ! 0 + (\<Sum>c < Suc k. idx ! (c + 1))"
    by simp
  show ?case
    unfolding step using IH new Suc.prems
    by (auto simp: nth_list_update less_Suc_eq_le le_Suc_eq)
qed

lemma reverse_idx_step_checked:
  assumes "1 \<le> gcell_vtx_lst ! j"
  shows "reverse_idx_step gcell_vtx_lst i j s =
      checked_event count_event i (nat (gcell_vtx_lst ! j - 1)) s"
proof -
  have "nat (gcell_vtx_lst ! j) = Suc (nat (gcell_vtx_lst ! j - 1))" using assms by simp
  then show ?thesis
    by (cases s) (simp add: reverse_idx_step_def checked_event_def count_event_def Let_def)
qed

lemma reverse_lst_step_checked:
  "reverse_lst_step gcell_vtx_lst vtx_gcells_idx i j s =
      checked_event (fill_event (\<lambda>v. vtx_gcells_idx ! v)) i (nat (gcell_vtx_lst ! j - 1)) s"
  by (cases s, cases "fst s")
     (simp add: reverse_lst_step_def checked_event_def fill_event_def Let_def)

lemma reverse_rows:
  assumes ok: "gcell_rows_ok (n_elts halo CS_HALO_EXTENDED) n gidx glst"
    and res: "create_vtx_gcells_connect halo n gidx glst = (vidx, vlst)"
  shows "length vidx = n + 1"
    and "vidx ! 0 = 0"
    and "int (length vlst) = vidx ! n"
    and "v < n \<Longrightarrow> row0 vidx vlst v =
          map int (filter (\<lambda>i. v \<in> set (gcell_vertices gidx glst i))
                     [0..<n_elts halo CS_HALO_EXTENDED])"
proof -
  let ?ng = "n_elts halo CS_HALO_EXTENDED"
  let ?tg = "gcell_vertices gidx glst"
  let ?js = "\<lambda>i. [nat (gidx ! i)..<nat (gidx ! (i + 1))]"
  let ?es = "concat (map (\<lambda>i. map (\<lambda>v. (v, int i)) (new_targets [] (?tg i))) [0..<?ng])"
  let ?ch0 = "replicate n (- 1 :: int)"
  have range: "halo_range halo (- 1) = (0, ?ng)" by (simp add: halo_range_def)
  have entry: "1 \<le> glst ! j" "glst ! j \<le> int n" if "i \<in> set [0..<?ng]" "j \<in> set (?js i)" for i j
    using ok that unfolding gcell_rows_ok_def by auto
  have tg_bound: "\<forall>i \<in> set [0..<?ng]. \<forall>v \<in> set (?tg i). v < n"
  proof (intro ballI)
    fix i v assume i: "i \<in> set [0..<?ng]" and "v \<in> set (?tg i)"
    then obtain j where j: "j \<in> set (?js i)" "v = nat (glst ! j - 1)"
      by (auto simp: gcell_vertices_def)
    from entry [OF i j(1)] show "v < n" using j(2) by simp
  qed
  have rows: "\<forall>e \<in> set ?es. fst e < n"
    using tg_bound by (auto simp: set_new_targets)
  have ch0: "\<forall>v < n. \<forall>i \<in> set [0..<?ng]. ?ch0 ! v < int i" by simp
  \<comment> \<open>the index pass\<close>
  have inner_idx: "fold (reverse_idx_step glst i) (?js i) = fold (checked_event count_event i) (?tg i)"
    if i: "i \<in> set [0..<?ng]" for i
  proof -
    have st: "reverse_idx_step glst i j = checked_event count_event i (nat (glst ! j - 1))"
      if "j \<in> set (?js i)" for j
      using reverse_idx_step_checked [OF entry(1) [OF i that]] by (intro ext)
    have "fold (reverse_idx_step glst i) (?js i) s
        = fold (\<lambda>j. checked_event count_event i (nat (glst ! j - 1))) (?js i) s" for s
      by (rule fold_cong [OF refl refl st])
    then show ?thesis
      by (intro ext) (simp add: gcell_vertices_def fold_map comp_def)
  qed
  let ?idx0 = "replicate (n + 1) (0 :: int)"
  let ?pass1 = "fold (\<lambda>i. fold (reverse_idx_step glst i) (?js i)) [0..<?ng] (?idx0, ?ch0)"
  have "?pass1 = fold (\<lambda>i. fold (checked_event count_event i) (?tg i)) [0..<?ng] (?idx0, ?ch0)"
    by (rule fold_cong [OF refl refl inner_idx])
  then have idx1: "fst ?pass1 = fold count_event ?es ?idx0"
    using checked_rows [OF sorted_wrt_upt tg_bound _ ch0, of count_event ?idx0] by simp
  have len1: "length (fst ?pass1) = n + 1" and z1: "fst ?pass1 ! 0 = 0"
    and cnt1: "\<forall>c < n. fst ?pass1 ! (c + 1) = int (cnt c ?es)"
    unfolding idx1 using count_events [OF rows, of ?idx0] by simp_all
  let ?idx = "fold (\<lambda>i idx. idx[i + 1 := idx ! (i + 1) + idx ! i]) [0..<n] (fst ?pass1)"
  have idx_eq: "reverse_connectivity_idx halo n (- 1) gidx glst = ?idx"
    by (simp only: reverse_connectivity_idx_def Let_def range case_prod_beta fst_conv snd_conv)
  have lenI: "length ?idx = n + 1"
    and sums: "\<forall>j \<le> n. ?idx ! j = fst ?pass1 ! 0 + (\<Sum>c < j. fst ?pass1 ! (c + 1))"
    using prefix_sums_upto [OF len1, of n] by simp_all
  have start: "?idx ! j = (\<Sum>c < j. int (cnt c ?es))" if "j \<le> n" for j
  proof -
    have "(\<Sum>c < j. fst ?pass1 ! (c + 1)) = (\<Sum>c < j. int (cnt c ?es))"
      using cnt1 that by (intro sum.cong) auto
    then show ?thesis using sums z1 that by simp
  qed
  have next_start: "?idx ! (c + 1) = ?idx ! c + int (cnt c ?es)" if "c < n" for c
    using start [of c] start [of "c + 1"] that by simp
  \<comment> \<open>the list pass\<close>
  let ?lst0 = "replicate (nat (?idx ! n)) (0 :: int)"
  let ?cnt0 = "replicate n (0 :: int)"
  let ?pass2 = "fold (\<lambda>i. fold (reverse_lst_step glst ?idx i) (?js i)) [0..<?ng] ((?lst0, ?cnt0), ?ch0)"
  have inner_lst: "fold (reverse_lst_step glst ?idx i) (?js i)
      = fold (checked_event (fill_event (\<lambda>v. ?idx ! v)) i) (?tg i)" for i
    by (intro ext) (simp add: reverse_lst_step_checked [abs_def] gcell_vertices_def fold_map comp_def)
  have fin: "fst ?pass2 = fold (fill_event (\<lambda>v. ?idx ! v)) ?es (?lst0, ?cnt0)"
    unfolding inner_lst
    using checked_rows [OF sorted_wrt_upt tg_bound _ ch0, of "fill_event (\<lambda>v. ?idx ! v)" "(?lst0, ?cnt0)"]
    by simp
  have lst_eq: "reverse_connectivity_lst halo n (- 1) gidx glst ?idx ?lst0 = fst (fst ?pass2)"
    by (simp only: reverse_connectivity_lst_def Let_def range case_prod_beta fst_conv snd_conv)
  have "create_vtx_gcells_connect halo n gidx glst = (?idx, fst (fst ?pass2))"
    by (simp only: create_vtx_gcells_connect_def Let_def idx_eq lst_eq)
  then have eq: "vidx = ?idx" "vlst = fst (fst ?pass2)" using res by simp_all
  have pos: "\<forall>c < n. 0 \<le> ?idx ! c"
    using start by (simp add: sum_nonneg)
  have total: "int (length ?lst0) = (\<Sum>c < n. int (cnt c ?es))"
    using start [of n] by (simp add: sum_nonneg)
  have fit: "\<forall>c < n. ?idx ! c + int (cnt c ?es) \<le> int (length ?lst0)"
  proof (intro allI impI)
    fix c assume c: "c < n"
    have "(\<Sum>x < c. int (cnt x ?es)) + int (cnt c ?es) \<le> (\<Sum>x < Suc c. int (cnt x ?es))" by simp
    also have "\<dots> \<le> (\<Sum>x < n. int (cnt x ?es))"
      using c by (intro sum_mono2) auto
    finally show "?idx ! c + int (cnt c ?es) \<le> int (length ?lst0)"
      using start [of c] c total by simp
  qed
  have sep: "\<forall>c c'. c < c' \<longrightarrow> c' < n \<longrightarrow> ?idx ! c + int (cnt c ?es) \<le> ?idx ! c'"
    using sum_cnt_mono [of _ _ ?es] start by simp
  show "length vidx = n + 1" using lenI eq by simp
  show "vidx ! 0 = 0" using start [of 0] eq by simp
  have L: "length (fst (fst ?pass2)) = length ?lst0"
    unfolding fin using fill_events [OF rows pos _ fit sep] by simp
  have "int (length (fst (fst ?pass2))) = int (length ?lst0)" by (simp only: L)
  also have "\<dots> = (\<Sum>c < n. int (cnt c ?es))" by (rule total)
  also have "\<dots> = ?idx ! n" using start [of n] by simp
  finally show "int (length vlst) = vidx ! n" unfolding eq .
  show "row0 vidx vlst v = map int (filter (\<lambda>i. v \<in> set (?tg i)) [0..<?ng])" if v: "v < n"
  proof -
    have "row0 ?idx (fst (fst ?pass2)) v =
        map (\<lambda>k. fst (fst ?pass2) ! k) [nat (?idx ! v)..<nat (?idx ! v + int (cnt v ?es))]"
      by (simp only: row0_def next_start [OF v])
    also have "\<dots> = entries v ?es"
      unfolding fin by (rule fill_events_rows [OF rows pos fit sep v])
    also have "\<dots> = map int (filter (\<lambda>i. v \<in> set (?tg i)) [0..<?ng])"
      by (rule entries_checked_rows)
    finally show ?thesis using eq by simp
  qed
qed

lemma count_list_filter_upt:
  "count_list (map int (filter P [0..<n])) (int i) = (if i < n \<and> P i then 1 else 0)"
  by (induction n) auto

text \<open>
  Claim C4. For a well-formed ghost cell to vertices adjacency, the reversed adjacency
  built by the index pass, the prefix sum and the list pass has, in the row of every
  vertex \<open>v\<close>, exactly the ghost cells whose forward row lists \<open>v\<close>, in increasing
  order: each such ghost cell occurs once, however often its row repeats the vertex, and
  nothing else occurs. The index has one slot per vertex plus one, starts at 0 and ends
  at the list's length.
\<close>

theorem reversed_rows:
  assumes "gcell_rows_ok (n_elts halo CS_HALO_EXTENDED) n gcells_vtx_idx gcells_vtx_lst"
    and "create_vtx_gcells_connect halo n gcells_vtx_idx gcells_vtx_lst
           = (vtx_gcells_idx, vtx_gcells_lst)"
    and "v < n"
  shows "row0 vtx_gcells_idx vtx_gcells_lst v =
           map int (filter (\<lambda>i. v \<in> set (gcell_vertices gcells_vtx_idx gcells_vtx_lst i))
                      [0..<n_elts halo CS_HALO_EXTENDED])
       \<and> (\<forall>i < n_elts halo CS_HALO_EXTENDED.
            count_list (row0 vtx_gcells_idx vtx_gcells_lst v) (int i) =
              (if v \<in> set (gcell_vertices gcells_vtx_idx gcells_vtx_lst i) then 1 else 0))
       \<and> (\<forall>x \<in> set (row0 vtx_gcells_idx vtx_gcells_lst v).
            \<exists>i < n_elts halo CS_HALO_EXTENDED.
              x = int i \<and> v \<in> set (gcell_vertices gcells_vtx_idx gcells_vtx_lst i))
       \<and> length vtx_gcells_idx = n + 1
       \<and> vtx_gcells_idx ! 0 = 0
       \<and> int (length vtx_gcells_lst) = vtx_gcells_idx ! n"
proof -
  note r = reverse_rows [OF assms(1,2)]
  have row: "row0 vtx_gcells_idx vtx_gcells_lst v =
      map int (filter (\<lambda>i. v \<in> set (gcell_vertices gcells_vtx_idx gcells_vtx_lst i))
                 [0..<n_elts halo CS_HALO_EXTENDED])"
    using r(4) [OF assms(3)] .
  have once: "\<forall>i < n_elts halo CS_HALO_EXTENDED.
      count_list (row0 vtx_gcells_idx vtx_gcells_lst v) (int i) =
        (if v \<in> set (gcell_vertices gcells_vtx_idx gcells_vtx_lst i) then 1 else 0)"
    unfolding row by (simp add: count_list_filter_upt)
  have only: "\<forall>x \<in> set (row0 vtx_gcells_idx vtx_gcells_lst v).
      \<exists>i < n_elts halo CS_HALO_EXTENDED.
        x = int i \<and> v \<in> set (gcell_vertices gcells_vtx_idx gcells_vtx_lst i)"
    unfolding row by auto
  show ?thesis using row once only r(1,2,3) by blast
qed

theorem reversed_rows_witness:
  "row0 (fst (create_vtx_gcells_connect two_gcells_halo 3 [0, 3, 6] [1, 2, 1, 2, 3, 3]))
        (snd (create_vtx_gcells_connect two_gcells_halo 3 [0, 3, 6] [1, 2, 1, 2, 3, 3])) 1
     = [0, 1]"
proof -
  let ?r = "create_vtx_gcells_connect two_gcells_halo 3 [0, 3, 6] [1, 2, 1, 2, 3, 3]"
  have ng: "n_elts two_gcells_halo CS_HALO_EXTENDED = 2" by (simp add: two_gcells_halo_def)
  have h1: "gcell_rows_ok (n_elts two_gcells_halo CS_HALO_EXTENDED) 3 [0, 3, 6] [1, 2, 1, 2, 3, 3]"
    by code_simp
  have h2: "?r = (fst ?r, snd ?r)" by simp
  have h3: "(1::nat) < 3" by simp
  have e: "map int (filter (\<lambda>i. 1 \<in> set (gcell_vertices [0, 3, 6] [1, 2, 1, 2, 3, 3] i))
      [0..<n_elts two_gcells_halo CS_HALO_EXTENDED]) = [0, 1]"
    by code_simp
  from reversed_rows [OF h1 h2 h3] show ?thesis by (simp only: e)
qed

subsection \<open>The filter of the extended neighborhood\<close>

lemma tag_entry_fold:
  assumes "i < length lst"
  shows "fold (tag_entry vcl ext i) ks lst =
      (if (\<exists>k \<in> set ks. vcl ! k = ext) \<and> lst ! i > 0 then lst[i := - lst ! i] else lst)"
  using assms
proof (induction ks arbitrary: lst)
  case Nil
  then show ?case by simp
next
  case (Cons k ks)
  show ?case
  proof (cases "vcl ! k = ext \<and> lst ! i > 0")
    case True
    let ?l = "lst[i := - lst ! i]"
    have "tag_entry vcl ext i k lst = ?l" using True by (simp add: tag_entry_def)
    moreover have "fold (tag_entry vcl ext i) ks ?l = ?l"
      using Cons.IH [of ?l] Cons.prems True by simp
    ultimately show ?thesis using True by simp
  next
    case False
    then have "tag_entry vcl ext i k lst = lst" by (auto simp: tag_entry_def)
    then show ?thesis using Cons.IH [OF Cons.prems] False by auto
  qed
qed

lemma face_touches_concat:
  "face_touches mesh vci vcl f e \<longleftrightarrow>
     (\<exists>k \<in> set (concat (map (\<lambda>j. range1 vci (nat (i_face_vtx_lst mesh ! j - 1)))
                          (range1 (i_face_vtx_idx mesh) f))). vcl ! k = e)"
  by (auto simp: face_touches_def)

lemma tag_position_eq:
  assumes "i < length lst"
  shows "tag_position mesh vci vcl f i lst =
      (if lst ! i > 0 \<and> face_touches mesh vci vcl f (lst ! i) then lst[i := - lst ! i] else lst)"
proof -
  have "fold (\<lambda>j. let vtx_id = i_face_vtx_lst mesh ! j - 1
                   in fold (tag_entry vcl e i) (range1 vci (nat vtx_id)))
             (range1 (i_face_vtx_idx mesh) f) lst
      = fold (tag_entry vcl e i)
          (concat (map (\<lambda>j. range1 vci (nat (i_face_vtx_lst mesh ! j - 1)))
                       (range1 (i_face_vtx_idx mesh) f))) lst" for e
    by (simp add: Let_def fold_concat_map)
  then show ?thesis
    unfolding tag_position_def Let_def
    by (simp add: tag_entry_fold [OF assms] face_touches_concat)
qed

lemma tag_row:
  assumes "\<forall>i \<in> set R. i < length lst"
  shows "length (fold (tag_position mesh vci vcl f) R lst) = length lst
       \<and> (\<forall>p < length lst. fold (tag_position mesh vci vcl f) R lst ! p =
            (if p \<in> set R \<and> lst ! p > 0 \<and> face_touches mesh vci vcl f (lst ! p)
             then - lst ! p else lst ! p))"
  using assms
proof (induction R arbitrary: lst)
  case Nil
  then show ?case by simp
next
  case (Cons i R)
  let ?l = "tag_position mesh vci vcl f i lst"
  have i: "i < length lst" using Cons.prems by simp
  have l: "?l = (if lst ! i > 0 \<and> face_touches mesh vci vcl f (lst ! i)
      then lst[i := - lst ! i] else lst)"
    by (rule tag_position_eq [OF i])
  have len: "length ?l = length lst" by (simp add: l)
  have R: "\<forall>i \<in> set R. i < length ?l" using Cons.prems len by simp
  note IH = Cons.IH [OF R]
  have "fold (tag_position mesh vci vcl f) (i # R) lst ! p =
      (if p \<in> set (i # R) \<and> lst ! p > 0 \<and> face_touches mesh vci vcl f (lst ! p)
       then - lst ! p else lst ! p)" if p: "p < length lst" for p
  proof -
    have "fold (tag_position mesh vci vcl f) (i # R) lst ! p =
        (if p \<in> set R \<and> ?l ! p > 0 \<and> face_touches mesh vci vcl f (?l ! p)
         then - ?l ! p else ?l ! p)"
      using IH p len by simp
    also have "\<dots> = (if p \<in> set (i # R) \<and> lst ! p > 0 \<and> face_touches mesh vci vcl f (lst ! p)
       then - lst ! p else lst ! p)"
    proof (cases "p = i")
      case False
      then have "?l ! p = lst ! p" by (simp add: l)
      then show ?thesis using False by simp
    next
      case True
      show ?thesis
      proof (cases "lst ! i > 0 \<and> face_touches mesh vci vcl f (lst ! i)")
        case flip: True
        then have "?l ! p = - lst ! i" using True i by (simp add: l)
        then show ?thesis using True flip by simp
      next
        case keep: False
        then have "?l = lst" unfolding l by auto
        then show ?thesis using True keep by auto
      qed
    qed
    finally show ?thesis .
  qed
  then show ?case using IH len by simp
qed

lemma tag_cells_eq:
  "tag_cells f cell_id mesh vci vcl idx lst =
     (if cell_id < int (n_cells mesh)
      then fold (tag_position mesh vci vcl f) (range1 idx (nat cell_id)) lst else lst)"
  by (simp add: tag_cells_def tag_position_def [abs_def])

lemma ext_rows_mono:
  assumes "ext_rows_ok n idx lst" and "c \<le> c'" and "c' \<le> n"
  shows "idx ! c \<le> idx ! c'"
  using assms(2,3)
proof (induction c' rule: dec_induct)
  case base
  show ?case by simp
next
  case (step k)
  have "idx ! k \<le> idx ! (k + 1)" using assms(1) step.prems by (simp add: ext_rows_ok_def)
  then show ?case using step by simp
qed

lemma ext_rows_ge1:
  assumes "ext_rows_ok n idx lst" and "c \<le> n"
  shows "1 \<le> idx ! c"
  using ext_rows_mono [OF assms(1), of 0 c] assms by (simp add: ext_rows_ok_def)

lemma range1_bound:
  assumes "ext_rows_ok n idx lst" and "c < n" and "p \<in> set (range1 idx c)"
  shows "p < length lst"
proof -
  have "idx ! (c + 1) \<le> idx ! n" using ext_rows_mono [OF assms(1), of "c + 1" n] assms(2) by simp
  moreover have "int (length lst) = idx ! n - 1" using assms(1) by (simp add: ext_rows_ok_def)
  moreover have "p < nat (idx ! (c + 1) - 1)" using assms(3) by (simp add: range1_def)
  ultimately show ?thesis by linarith
qed

lemma range1_disjoint:
  assumes ok: "ext_rows_ok n idx lst" and "c < n" and "c' < n"
    and "p \<in> set (range1 idx c)" and "p \<in> set (range1 idx c')"
  shows "c = c'"
proof (rule ccontr)
  assume ne: "c \<noteq> c'"
  have gap: False if lt: "a < b" and b: "b < n"
    and pa: "p \<in> set (range1 idx a)" and pb: "p \<in> set (range1 idx b)" for a b
  proof -
    have "idx ! (a + 1) \<le> idx ! b" using ext_rows_mono [OF ok, of "a + 1" b] lt b by simp
    moreover have "p < nat (idx ! (a + 1) - 1)" using pa by (simp add: range1_def)
    moreover have "nat (idx ! b - 1) \<le> p" using pb by (simp add: range1_def)
    ultimately show False by linarith
  qed
  from ne consider "c < c'" | "c' < c" by linarith
  then show False using gap assms by cases blast+
qed

lemma tag_cells_nth:
  assumes ok: "ext_rows_ok (n_cells mesh) idx lst0" and len: "length L = length lst0"
    and cell: "0 \<le> cell"
  shows "length (tag_cells f cell mesh vci vcl idx L) = length lst0
       \<and> (\<forall>p < length lst0. tag_cells f cell mesh vci vcl idx L ! p =
            (if in_row (n_cells mesh) idx cell p \<and> L ! p > 0 \<and> face_touches mesh vci vcl f (L ! p)
             then - L ! p else L ! p))"
proof (cases "cell < int (n_cells mesh)")
  case False
  then show ?thesis using len by (simp add: tag_cells_eq in_row_def)
next
  case True
  then have c: "nat cell < n_cells mesh" using cell by simp
  have R: "\<forall>i \<in> set (range1 idx (nat cell)). i < length L"
    using range1_bound [OF ok c] len by simp
  show ?thesis
    using tag_row [OF R, of mesh vci vcl f] True len by (simp add: tag_cells_eq in_row_def)
qed

lemma tag_faces_nth:
  assumes ok: "ext_rows_ok (n_cells mesh) idx lst0" and num: "cells_numbered mesh"
    and Fs: "set Fs \<subseteq> {..<n_i_faces mesh}"
  shows "length (fold (\<lambda>face_id lst.
             let cell_i = i_face_cells mesh ! (2 * face_id) - 1;
                 cell_j = i_face_cells mesh ! (2 * face_id + 1) - 1
             in if cos_ij_fn face_id \<le> cos_ij_fn_min
                then tag_cells face_id cell_j mesh vci vcl idx
                       (tag_cells face_id cell_i mesh vci vcl idx lst)
                else lst) Fs lst0) = length lst0
     \<and> (\<forall>p < length lst0.
          fold (\<lambda>face_id lst.
             let cell_i = i_face_cells mesh ! (2 * face_id) - 1;
                 cell_j = i_face_cells mesh ! (2 * face_id + 1) - 1
             in if cos_ij_fn face_id \<le> cos_ij_fn_min
                then tag_cells face_id cell_j mesh vci vcl idx
                       (tag_cells face_id cell_i mesh vci vcl idx lst)
                else lst) Fs lst0 ! p =
          (if tagged cos_ij_fn cos_ij_fn_min mesh vci vcl idx lst0 Fs p
           then - lst0 ! p else lst0 ! p))"
    (is "length (fold ?step Fs lst0) = _ \<and> _")
  using Fs
proof (induction Fs rule: rev_induct)
  case Nil
  show ?case by (simp add: tagged_def)
next
  case (snoc f Fs)
  let ?L = "fold ?step Fs lst0"
  let ?ci = "i_face_cells mesh ! (2 * f) - 1" and ?cj = "i_face_cells mesh ! (2 * f + 1) - 1"
  let ?T = "tagged cos_ij_fn cos_ij_fn_min mesh vci vcl idx lst0"
  from snoc have len: "length ?L = length lst0"
    and nth: "\<And>p. p < length lst0 \<Longrightarrow> ?L ! p = (if ?T Fs p then - lst0 ! p else lst0 ! p)"
    by simp_all
  have pos: "0 < lst0 ! p" if "p < length lst0" for p
    using ok that by (simp add: ext_rows_ok_def)
  have f: "f < n_i_faces mesh" using snoc.prems by simp
  have ci: "0 \<le> ?ci" and cj: "0 \<le> ?cj"
    using cells_numbered_face [OF num f] by (simp_all add: mult.commute)
  show ?case
  proof (cases "cos_ij_fn f \<le> cos_ij_fn_min")
    case False
    then have "fold ?step (Fs @ [f]) lst0 = ?L" by simp
    moreover have "?T (Fs @ [f]) p = ?T Fs p" for p using False by (auto simp: tagged_def)
    ultimately show ?thesis using len nth by simp
  next
    case True
    let ?L1 = "tag_cells f ?ci mesh vci vcl idx ?L"
    let ?L2 = "tag_cells f ?cj mesh vci vcl idx ?L1"
    have step: "fold ?step (Fs @ [f]) lst0 = ?L2" using True by (simp add: Let_def)
    note t1 = tag_cells_nth [OF ok len ci, of f vci vcl]
    then have len1: "length ?L1 = length lst0" by simp
    note t2 = tag_cells_nth [OF ok len1 cj, of f vci vcl]
    have "?L2 ! p = (if ?T (Fs @ [f]) p then - lst0 ! p else lst0 ! p)" if p: "p < length lst0" for p
    proof (cases "?T Fs p")
      case old: True
      then have "?L ! p = - lst0 ! p" using nth [OF p] by simp
      then have "?L1 ! p = - lst0 ! p" using t1 p pos [OF p] by simp
      then have "?L2 ! p = - lst0 ! p" using t2 p pos [OF p] by simp
      moreover have "?T (Fs @ [f]) p" using old by (auto simp: tagged_def)
      ultimately show ?thesis by simp
    next
      case new: False
      then have L: "?L ! p = lst0 ! p" using nth [OF p] by simp
      let ?a = "in_row (n_cells mesh) idx ?ci p \<and> face_touches mesh vci vcl f (lst0 ! p)"
      let ?b = "in_row (n_cells mesh) idx ?cj p \<and> face_touches mesh vci vcl f (lst0 ! p)"
      have L1: "?L1 ! p = (if ?a then - lst0 ! p else lst0 ! p)"
        using t1 p pos [OF p] L by simp
      have L2: "?L2 ! p = (if ?a \<or> ?b then - lst0 ! p else lst0 ! p)"
        using t2 p pos [OF p] L1 by auto
      have "?T (Fs @ [f]) p \<longleftrightarrow> ?a \<or> ?b" using new True by (auto simp: tagged_def)
      then show ?thesis using L2 by simp
    qed
    moreover have "length ?L2 = length lst0" using t2 by simp
    ultimately show ?thesis unfolding step by simp
  qed
qed

lemma tagged_admissible:
  assumes ok: "ext_rows_ok (n_cells mesh) idx lst0" and num: "cells_numbered mesh"
    and c: "c < n_cells mesh" and p: "p \<in> set (range1 idx c)"
  shows "tagged cos_ij_fn cos_ij_fn_min mesh vci vcl idx lst0 [0..<n_i_faces mesh] p
     \<longleftrightarrow> admissible_by cos_ij_fn cos_ij_fn_min mesh vci vcl c (lst0 ! p)"
proof -
  have row: "in_row (n_cells mesh) idx cell p \<longleftrightarrow> cell = int c" if "0 \<le> cell" for cell
  proof
    assume "in_row (n_cells mesh) idx cell p"
    then have "nat cell < n_cells mesh" "p \<in> set (range1 idx (nat cell))"
      using that by (auto simp: in_row_def)
    from range1_disjoint [OF ok this(1) c this(2) p] show "cell = int c" using that by simp
  next
    assume "cell = int c"
    then show "in_row (n_cells mesh) idx cell p" using c p by (simp add: in_row_def)
  qed
  have cells: "0 \<le> i_face_cells mesh ! (2 * f) - 1" "0 \<le> i_face_cells mesh ! (2 * f + 1) - 1"
    if "f \<in> set [0..<n_i_faces mesh]" for f
    using cells_numbered_face [OF num, of f] that by (simp_all add: mult.commute)
  show ?thesis
    unfolding tagged_def admissible_by_def
    using row cells by (intro bex_cong refl) auto
qed

lemma change_signs_upto:
  fixes lst :: "int list"
  shows "k \<le> length lst \<Longrightarrow>
    fold (\<lambda>i lst. lst[i := - lst ! i]) [0..<k] lst = map uminus (take k lst) @ drop k lst"
proof (induction k)
  case 0
  show ?case by simp
next
  case (Suc k)
  then have k: "k < length lst" by simp
  have "fold (\<lambda>i lst. lst[i := - lst ! i]) [0..<Suc k] lst
      = (map uminus (take k lst) @ drop k lst)[k := - (map uminus (take k lst) @ drop k lst) ! k]"
    using Suc by simp
  also have "\<dots> = map uminus (take k lst) @ (- lst ! k) # drop (Suc k) lst"
    using k by (simp add: list_update_append nth_append Cons_nth_drop_Suc [symmetric])
  also have "\<dots> = map uminus (take (Suc k) lst) @ drop (Suc k) lst"
    using k by (simp add: take_Suc_conv_app_nth)
  finally show ?case .
qed

lemma change_signs_eq:
  assumes "int (length lst) = idx ! n - 1"
  shows "change_signs idx lst n = map uminus lst"
proof -
  have "nat (idx ! n - 1) = length lst" using assms by simp
  then show ?thesis
    unfolding change_signs_def using change_signs_upto [of "length lst" lst] by simp
qed

lemma kept_0 [simp]: "kept 0 xs = 0"
  by (simp add: kept_def)

lemma kept_le: "kept a xs \<le> a"
  unfolding kept_def by (rule order_trans [OF length_filter_le]) simp

lemma kept_Suc:
  "i < length xs \<Longrightarrow> kept (Suc i) xs = (if 0 < xs ! i then Suc (kept i xs) else kept i xs)"
  by (simp add: kept_def take_Suc_conv_app_nth)

lemma delete_entry_inv:
  assumes inv: "del_inv xs d i" and i: "i < length xs"
  shows "del_inv xs (delete_entry i d) (Suc i)"
    and "del_idx (delete_entry i d) = del_idx d"
    and "previous_idx (delete_entry i d) = previous_idx d"
proof -
  let ?P = "\<lambda>x :: int. 0 < x"
  let ?k = "kept i xs"
  from inv have len: "length (del_lst d) = length xs"
    and ni: "new_idx d + 1 = int ?k"
    and nd: "n_deleted_cells d = int i - int ?k"
    and tk: "take ?k (del_lst d) = filter ?P (take i xs)"
    and dr: "drop i (del_lst d) = drop i xs"
    by (simp_all add: del_inv_def)
  have cur: "del_lst d ! i = xs ! i"
    using dr i len by (metis Cons_nth_drop_Suc nth_via_drop)
  have ki: "?k \<le> i" by (rule kept_le)
  show "del_idx (delete_entry i d) = del_idx d" "previous_idx (delete_entry i d) = previous_idx d"
    by (simp_all add: delete_entry_def)
  show "del_inv xs (delete_entry i d) (Suc i)"
  proof (cases "0 < xs ! i")
    case False
    then have d': "delete_entry i d = d\<lparr>n_deleted_cells := n_deleted_cells d + 1\<rparr>"
      by (simp add: delete_entry_def cur)
    have k': "kept (Suc i) xs = ?k" using False i by (simp add: kept_Suc)
    have "filter ?P (take (Suc i) xs) = filter ?P (take i xs)"
      using False i by (simp add: take_Suc_conv_app_nth)
    moreover have "drop (Suc i) (del_lst d) = drop (Suc i) xs"
      using dr by (metis drop_drop add.commute plus_1_eq_Suc)
    ultimately show ?thesis
      unfolding del_inv_def d' k' using len ni nd tk by simp
  next
    case True
    let ?l = "(del_lst d)[?k := xs ! i]"
    have d': "delete_entry i d = d\<lparr>new_idx := new_idx d + 1, del_lst := ?l\<rparr>"
      using True ni by (simp add: delete_entry_def cur)
    have k': "kept (Suc i) xs = Suc ?k" using True i by (simp add: kept_Suc)
    have klen: "?k < length (del_lst d)" using ki i len by simp
    have "take (Suc ?k) ?l = take ?k ?l @ [?l ! ?k]"
      using klen by (simp add: take_Suc_conv_app_nth)
    also have "\<dots> = filter ?P (take i xs) @ [xs ! i]"
      using klen tk by simp
    also have "\<dots> = filter ?P (take (Suc i) xs)"
      using True i by (simp add: take_Suc_conv_app_nth)
    finally have tk': "take (Suc ?k) ?l = filter ?P (take (Suc i) xs)" .
    have "drop (Suc i) ?l = drop (Suc i) (del_lst d)"
      using ki by simp
    also have "\<dots> = drop (Suc i) xs"
      using dr by (metis drop_drop add.commute plus_1_eq_Suc)
    finally have dr': "drop (Suc i) ?l = drop (Suc i) xs" .
    show ?thesis
      unfolding del_inv_def d' k' using len ni nd tk' dr' by simp
  qed
qed

lemma delete_entries_inv:
  assumes "del_inv xs d a" and "a \<le> b" and "b \<le> length xs"
  shows "del_inv xs (fold delete_entry [a..<b] d) b
       \<and> del_idx (fold delete_entry [a..<b] d) = del_idx d
       \<and> previous_idx (fold delete_entry [a..<b] d) = previous_idx d"
  using assms(2,3)
proof (induction b rule: dec_induct)
  case base
  show ?case using assms(1) by simp
next
  case (step k)
  let ?d = "fold delete_entry [a..<k] d"
  from step have IH: "del_inv xs ?d k" "del_idx ?d = del_idx d" "previous_idx ?d = previous_idx d"
    by simp_all
  have k: "k < length xs" using step.prems by simp
  have "fold delete_entry [a..<Suc k] d = delete_entry k ?d"
    using step.hyps(1) by simp
  then show ?case using delete_entry_inv [OF IH(1) k] IH(2,3) by simp
qed

lemma delete_row_inv:
  assumes ok: "ext_rows_ok n idx0 lst0" and len: "length xs = length lst0"
    and inv: "row_inv n idx0 xs c d" and c: "c < n"
  shows "row_inv n idx0 xs (Suc c) (delete_row c d)"
proof -
  let ?a = "\<lambda>j. nat (idx0 ! j - 1)"
  from inv have di: "del_inv xs d (?a c)" and prev: "previous_idx d = idx0 ! c - 1"
    and li: "length (del_idx d) = n + 1"
    and early: "\<And>j. j \<le> c \<Longrightarrow> del_idx d ! j = 1 + int (kept (?a j) xs)"
    and todo: "\<And>j. c < j \<Longrightarrow> j \<le> n \<Longrightarrow> del_idx d ! j = idx0 ! j"
    by (simp_all add: row_inv_def)
  have nxt: "del_idx d ! (Suc c) = idx0 ! (Suc c)" using todo [of "Suc c"] c by simp
  have ab: "?a c \<le> ?a (Suc c)" using ext_rows_mono [OF ok, of c "Suc c"] c by simp
  have "idx0 ! (Suc c) \<le> idx0 ! n" using ext_rows_mono [OF ok, of "Suc c" n] c by simp
  moreover have "int (length lst0) = idx0 ! n - 1" using ok by (simp add: ext_rows_ok_def)
  ultimately have bl: "?a (Suc c) \<le> length xs" using len by linarith
  have ge1: "1 \<le> idx0 ! (Suc c)" using ext_rows_ge1 [OF ok, of "Suc c"] c by simp
  let ?d1 = "fold delete_entry [?a c..<?a (Suc c)] d"
  from delete_entries_inv [OF di ab bl]
  have d1: "del_inv xs ?d1 (?a (Suc c))" "del_idx ?d1 = del_idx d" "previous_idx ?d1 = previous_idx d"
    by simp_all
  have nd: "n_deleted_cells ?d1 = int (?a (Suc c)) - int (kept (?a (Suc c)) xs)"
    using d1(1) by (simp add: del_inv_def)
  have row: "delete_row c d = ?d1\<lparr>previous_idx := idx0 ! (Suc c) - 1,
      del_idx := (del_idx d)[c + 1 := idx0 ! (Suc c) - n_deleted_cells ?d1]\<rparr>"
    by (simp add: delete_row_def Let_def prev nxt d1(2))
  have new: "idx0 ! (Suc c) - n_deleted_cells ?d1 = 1 + int (kept (?a (Suc c)) xs)"
    using nd ge1 by simp
  have A: "del_inv xs (delete_row c d) (?a (Suc c))"
    using d1(1) unfolding row del_inv_def by simp
  have B: "previous_idx (delete_row c d) = idx0 ! Suc c - 1" by (simp add: row)
  have C: "length (del_idx (delete_row c d)) = n + 1" using li by (simp add: row)
  have D: "del_idx (delete_row c d) ! j = 1 + int (kept (?a j) xs)" if "j \<le> Suc c" for j
  proof (cases "j = Suc c")
    case True
    then show ?thesis using new li c by (simp add: row)
  next
    case False
    then have "j \<le> c" using that by simp
    then show ?thesis using early [of j] False by (simp add: row)
  qed
  have E: "del_idx (delete_row c d) ! j = idx0 ! j" if "Suc c < j" "j \<le> n" for j
    using todo [of j] that by (simp add: row)
  show ?thesis unfolding row_inv_def using A B C D E by blast
qed

lemma delete_rows_inv:
  assumes ok: "ext_rows_ok n idx0 lst0" and len: "length xs = length lst0" and c: "c \<le> n"
  shows "row_inv n idx0 xs c
     (fold delete_row [0..<c]
        \<lparr>del_lst = xs, del_idx = idx0, new_idx = - 1, n_deleted_cells = 0, previous_idx = 0\<rparr>)"
  using c
proof (induction c)
  case 0
  have "idx0 ! 0 = 1" "length idx0 = n + 1" using ok by (simp_all add: ext_rows_ok_def)
  then show ?case by (simp add: row_inv_def del_inv_def)
next
  case (Suc c)
  then show ?case using delete_row_inv [OF ok len, of c] by simp
qed

lemma map_nth_range:
  assumes "b \<le> length xs"
  shows "map ((!) xs) [a..<b] = drop a (take b xs)"
proof (rule nth_equalityI)
  show "length (map ((!) xs) [a..<b]) = length (drop a (take b xs))"
    using assms by simp
next
  fix i assume "i < length (map ((!) xs) [a..<b])"
  then have i: "i < b - a" by simp
  then have "map ((!) xs) [a..<b] ! i = xs ! (a + i)" by simp
  moreover have "drop a (take b xs) ! i = xs ! (a + i)"
    using i assms by simp
  ultimately show "map ((!) xs) [a..<b] ! i = drop a (take b xs) ! i" by simp
qed

lemma nth_slice: "map ((!) (A @ M @ C)) [length A..<length A + length M] = M"
proof (rule nth_equalityI)
  show "length (map ((!) (A @ M @ C)) [length A..<length A + length M]) = length M" by simp
next
  fix i assume "i < length (map ((!) (A @ M @ C)) [length A..<length A + length M])"
  then have i: "i < length M" by simp
  then have "map ((!) (A @ M @ C)) [length A..<length A + length M] ! i = (A @ M @ C) ! (length A + i)"
    by simp
  also have "\<dots> = M ! i" using i by (simp add: nth_append)
  finally show "map ((!) (A @ M @ C)) [length A..<length A + length M] ! i = M ! i" .
qed

lemma filter_rows:
  assumes "a \<le> b" and "b \<le> length xs"
  shows "map ((!) (filter P xs)) [length (filter P (take a xs))..<length (filter P (take b xs))]
      = filter P (map ((!) xs) [a..<b])"
proof -
  define A where "A = take a xs"
  define M where "M = drop a (take b xs)"
  define C where "C = drop b xs"
  have "take a (take b xs) @ drop a (take b xs) = take b xs" by (rule append_take_drop_id)
  moreover have "take a (take b xs) = take a xs" using assms(1) by (simp add: min_absorb1)
  ultimately have tb: "take b xs = A @ M" by (simp add: A_def M_def)
  have "take b xs @ drop b xs = xs" by (rule append_take_drop_id)
  then have xs: "xs = A @ M @ C" by (simp add: tb C_def)
  have f: "filter P xs = filter P A @ filter P M @ filter P C"
    by (subst xs) simp
  have lb: "length (filter P (take b xs)) = length (filter P A) + length (filter P M)"
    by (simp add: tb)
  have "map ((!) (filter P xs)) [length (filter P A)..<length (filter P A) + length (filter P M)]
      = filter P M"
    unfolding f by (rule nth_slice)
  then show ?thesis
    unfolding lb map_nth_range [OF assms(2)] by (simp add: A_def M_def)
qed

lemma filter_map_cong2:
  assumes "\<And>p. p \<in> set R \<Longrightarrow> (P (f p) \<longleftrightarrow> Q (g p)) \<and> (P (f p) \<longrightarrow> f p = g p)"
  shows "filter P (map f R) = filter Q (map g R)"
  using assms
proof (induction R)
  case Nil
  show ?case by simp
next
  case (Cons r R)
  have tl: "filter P (map f R) = filter Q (map g R)"
  proof (rule Cons.IH)
    fix p assume "p \<in> set R"
    then have "p \<in> set (r # R)" by simp
    then show "(P (f p) \<longleftrightarrow> Q (g p)) \<and> (P (f p) \<longrightarrow> f p = g p)" by (rule Cons.prems)
  qed
  have hd: "(P (f r) \<longleftrightarrow> Q (g r))" "P (f r) \<longrightarrow> f r = g r"
    using Cons.prems [of r] by simp_all
  show ?case
  proof (cases "P (f r)")
    case True
    then show ?thesis using hd tl by simp
  next
    case False
    then show ?thesis using hd tl by simp
  qed
qed

lemma kept_mono: "a \<le> b \<Longrightarrow> kept a xs \<le> kept b xs"
proof -
  assume "a \<le> b"
  then have "take a xs = take a (take b xs)" by (simp add: min_absorb1)
  then have "filter (\<lambda>x. 0 < x) (take a xs) = filter (\<lambda>x. 0 < x) (take a (take b xs))" by simp
  also have "length \<dots> \<le> length (filter (\<lambda>x. 0 < x) (take b xs))"
    by (metis append_take_drop_id filter_append le_add1 length_append)
  finally show ?thesis by (simp add: kept_def)
qed

lemma redvse_result:
  assumes idx: "cell_cells_idx mesh = Some idx0" and lst: "cell_cells_lst mesh = Some lst0"
    and halo: "halo_type mesh \<noteq> CS_HALO_STANDARD"
    and ok: "ext_rows_ok (n_cells mesh) idx0 lst0" and num: "cells_numbered mesh"
    and vc: "create_vtx_cells_connect mesh = (vci, vcl)"
  shows "\<exists>idx' lst'.
      redvse cos_ij_fn cos_ij_fn_min (0, mesh)
        = (1, mesh\<lparr>cell_cells_idx := Some idx', cell_cells_lst := Some lst'\<rparr>)
    \<and> ext_rows_ok (n_cells mesh) idx' lst'
    \<and> (\<forall>c < n_cells mesh.
          row1 idx' lst' c = filter (admissible_by cos_ij_fn cos_ij_fn_min mesh vci vcl c) (row1 idx0 lst0 c))"
proof -
  let ?n = "n_cells mesh"
  let ?P = "\<lambda>x :: int. 0 < x"
  let ?T = "tagged cos_ij_fn cos_ij_fn_min mesh vci vcl idx0 lst0 [0..<n_i_faces mesh]"
  let ?a = "\<lambda>j. nat (idx0 ! j - 1)"
  define lst1 where "lst1 = tag_faces cos_ij_fn cos_ij_fn_min mesh vci vcl idx0 lst0"
  define xs where "xs = change_signs idx0 lst1 ?n"
  define d where "d = fold delete_row [0..<?n]
      \<lparr>del_lst = xs, del_idx = idx0, new_idx = - 1, n_deleted_cells = 0, previous_idx = 0\<rparr>"
  define idx' where "idx' = del_idx d"
  define lst' where "lst' = take (nat (del_idx d ! ?n - 1)) (del_lst d)"
  have res: "redvse cos_ij_fn cos_ij_fn_min (0, mesh)
      = (1, mesh\<lparr>cell_cells_idx := Some idx', cell_cells_lst := Some lst'\<rparr>)"
    using idx lst halo vc
    by (simp add: redvse_def Let_def idx'_def lst'_def d_def xs_def lst1_def)
  have m: "int (length lst0) = idx0 ! ?n - 1" and pos0: "\<And>p. p < length lst0 \<Longrightarrow> 0 < lst0 ! p"
    using ok by (simp_all add: ext_rows_ok_def)
  \<comment> \<open>tagging and sign change\<close>
  have tf: "length lst1 = length lst0"
    "\<And>p. p < length lst0 \<Longrightarrow> lst1 ! p = (if ?T p then - lst0 ! p else lst0 ! p)"
  proof -
    have Fs: "set [0..<n_i_faces mesh] \<subseteq> {..<n_i_faces mesh}" by auto
    note t = tag_faces_nth [OF ok num Fs, of cos_ij_fn cos_ij_fn_min vci vcl,
        folded tag_faces_def, folded lst1_def]
    show "length lst1 = length lst0" by (rule conjunct1 [OF t])
    show "\<And>p. p < length lst0 \<Longrightarrow> lst1 ! p = (if ?T p then - lst0 ! p else lst0 ! p)"
      using conjunct2 [OF t] by blast
  qed
  have xs_eq: "xs = map uminus lst1"
    unfolding xs_def by (rule change_signs_eq) (simp add: tf(1) m)
  have len: "length xs = length lst0" by (simp add: xs_eq tf(1))
  have xs_nth: "xs ! p = (if ?T p then lst0 ! p else - lst0 ! p)" if "p < length lst0" for p
    using that tf by (simp add: xs_eq)
  \<comment> \<open>deletion\<close>
  have inv: "row_inv ?n idx0 xs ?n d"
    unfolding d_def by (rule delete_rows_inv [OF ok len]) simp
  have an: "?a ?n = length xs" using m len by simp
  from inv have di: "del_inv xs d (length xs)"
    and li: "length idx' = ?n + 1"
    and ix: "\<And>j. j \<le> ?n \<Longrightarrow> idx' ! j = 1 + int (kept (?a j) xs)"
    by (simp_all add: row_inv_def an idx'_def)
  have kall: "kept (length xs) xs = length (filter ?P xs)" by (simp add: kept_def)
  have "take (kept (length xs) xs) (del_lst d) = filter ?P xs"
    using di by (simp add: del_inv_def)
  moreover have "nat (del_idx d ! ?n - 1) = kept (length xs) xs"
    using ix [of ?n] an by (simp add: idx'_def)
  ultimately have lst'_eq: "lst' = filter ?P xs" by (simp add: lst'_def)
  have amono: "?a j \<le> ?a k" if "j \<le> k" "k \<le> ?n" for j k
    using ext_rows_mono [OF ok that] by simp
  have ale: "?a j \<le> length xs" if "j \<le> ?n" for j
    using amono [OF that order_refl] an by simp
  \<comment> \<open>the result is well-formed\<close>
  have a0: "?a 0 = 0" using ok by (simp add: ext_rows_ok_def)
  have ok': "ext_rows_ok ?n idx' lst'"
    unfolding ext_rows_ok_def
  proof (intro conjI ballI)
    show "length idx' = ?n + 1" by (rule li)
    show "idx' ! 0 = 1" using ix [of 0] a0 by simp
    show "idx' ! c \<le> idx' ! (c + 1)" if "c \<in> set [0..<?n]" for c
    proof -
      have c: "c < ?n" using that by simp
      have "kept (?a c) xs \<le> kept (?a (c + 1)) xs"
        by (rule kept_mono) (rule amono, use c in simp_all)
      then show ?thesis using ix [of c] ix [of "c + 1"] c by simp
    qed
    show "int (length lst') = idx' ! ?n - 1"
      using ix [of ?n] an kall by (simp add: lst'_eq)
    show "0 < x" if "x \<in> set lst'" for x using that by (simp add: lst'_eq)
  qed
  \<comment> \<open>the rows\<close>
  have rows: "row1 idx' lst' c = filter (admissible_by cos_ij_fn cos_ij_fn_min mesh vci vcl c) (row1 idx0 lst0 c)"
    if c: "c < ?n" for c
  proof -
    have ab: "?a c \<le> ?a (c + 1)" and bl: "?a (c + 1) \<le> length xs"
      using amono [of c "c + 1"] ale [of "c + 1"] c by simp_all
    have "row1 idx' lst' c = map ((!) (filter ?P xs)) [kept (?a c) xs..<kept (?a (c + 1)) xs]"
      using ix [of c] ix [of "c + 1"] c by (simp add: row1_def lst'_eq)
    also have "\<dots> = filter ?P (map ((!) xs) [?a c..<?a (c + 1)])"
      unfolding kept_def by (rule filter_rows [OF ab bl])
    also have "\<dots> = filter ?P (map ((!) xs) (range1 idx0 c))" by (simp add: range1_def)
    also have "\<dots> = filter (admissible_by cos_ij_fn cos_ij_fn_min mesh vci vcl c)
        (map ((!) lst0) (range1 idx0 c))"
    proof (rule filter_map_cong2)
      fix p assume p: "p \<in> set (range1 idx0 c)"
      have pl: "p < length lst0" by (rule range1_bound [OF ok c p])
      have T: "?T p \<longleftrightarrow> admissible_by cos_ij_fn cos_ij_fn_min mesh vci vcl c (lst0 ! p)"
        by (rule tagged_admissible [OF ok num c p])
      show "(0 < xs ! p \<longleftrightarrow> admissible_by cos_ij_fn cos_ij_fn_min mesh vci vcl c (lst0 ! p))
          \<and> (0 < xs ! p \<longrightarrow> xs ! p = lst0 ! p)"
        using xs_nth [OF pl] pos0 [OF pl] T by auto
    qed
    also have "\<dots> = filter (admissible_by cos_ij_fn cos_ij_fn_min mesh vci vcl c) (row1 idx0 lst0 c)"
      by (simp add: row1_def range1_def)
    finally show ?thesis .
  qed
  show ?thesis using res ok' rows by blast
qed

text \<open>
  The vertex to cells connectivity that \<^verbatim>\<open>redvse\<close> builds lists, for every vertex, the
  cells of the vertex. First the vertex to faces connectivity, a two-pass build whose
  fill pass uses the index as cursor; then the loop over the vertices.
\<close>

lemma face_vertices_range:
  "face_vertices mesh f = map (\<lambda>i. i_face_vtx_lst mesh ! i) (range1 (i_face_vtx_idx mesh) f)"
  by (simp add: face_vertices_def row1_def range1_def)

lemma face_vertex_bounds:
  assumes "face_vertices_ok mesh" and "f < n_i_faces mesh" and "i \<in> set (range1 (i_face_vtx_idx mesh) f)"
  shows "1 \<le> i_face_vtx_lst mesh ! i" and "i_face_vtx_lst mesh ! i \<le> int (n_vertices mesh)"
proof -
  have "i_face_vtx_lst mesh ! i \<in> set (face_vertices mesh f)"
    using assms(3) by (simp add: face_vertices_range)
  then have "1 \<le> i_face_vtx_lst mesh ! i \<and> i_face_vtx_lst mesh ! i \<le> int (n_vertices mesh)"
    using assms(1,2) unfolding face_vertices_ok_def by simp
  then show "1 \<le> i_face_vtx_lst mesh ! i" and "i_face_vtx_lst mesh ! i \<le> int (n_vertices mesh)"
    by simp_all
qed

lemma vtx_face_events_rows:
  assumes "face_vertices_ok mesh"
  shows "\<forall>e \<in> set (vtx_face_events mesh). fst e < n_vertices mesh"
proof
  fix e assume "e \<in> set (vtx_face_events mesh)"
  then obtain f i where f: "f < n_i_faces mesh" and i: "i \<in> set (range1 (i_face_vtx_idx mesh) f)"
    and e: "e = (nat (i_face_vtx_lst mesh ! i - 1), int f + 1)"
    by (auto simp: vtx_face_events_def)
  from face_vertex_bounds [OF assms f i] show "fst e < n_vertices mesh"
    by (simp add: e)
qed

lemma entries_vtx_face_events:
  "entries v (vtx_face_events mesh) =
     concat (map (\<lambda>f. map (\<lambda>i. int f + 1)
                         (filter (\<lambda>i. nat (i_face_vtx_lst mesh ! i - 1) = v)
                            (range1 (i_face_vtx_idx mesh) f)))
               [0..<n_i_faces mesh])"
  unfolding vtx_face_events_def entries_concat
  by (rule arg_cong [where f = concat], rule map_cong [OF refl])
    (simp add: entries_def filter_map comp_def)

lemma set_entries_vtx_face_events:
  assumes "face_vertices_ok mesh"
  shows "set (entries v (vtx_face_events mesh)) =
     {int f + 1 | f. f < n_i_faces mesh \<and> int v + 1 \<in> set (face_vertices mesh f)}"
proof -
  have iff: "nat (i_face_vtx_lst mesh ! i - 1) = v \<longleftrightarrow> i_face_vtx_lst mesh ! i = int v + 1"
    if "f < n_i_faces mesh" "i \<in> set (range1 (i_face_vtx_idx mesh) f)" for f i
    using face_vertex_bounds(1) [OF assms that] by auto
  show ?thesis
  proof (intro set_eqI iffI)
    fix x assume "x \<in> set (entries v (vtx_face_events mesh))"
    then obtain f i where f: "f < n_i_faces mesh" and i: "i \<in> set (range1 (i_face_vtx_idx mesh) f)"
      and v: "nat (i_face_vtx_lst mesh ! i - 1) = v" and x: "x = int f + 1"
      by (auto simp: entries_vtx_face_events)
    have "i_face_vtx_lst mesh ! i \<in> set (face_vertices mesh f)"
      using i by (simp add: face_vertices_range)
    then have "int v + 1 \<in> set (face_vertices mesh f)"
      using iff [OF f i] v by simp
    then show "x \<in> {int f + 1 | f. f < n_i_faces mesh \<and> int v + 1 \<in> set (face_vertices mesh f)}"
      using f x by blast
  next
    fix x assume "x \<in> {int f + 1 | f. f < n_i_faces mesh \<and> int v + 1 \<in> set (face_vertices mesh f)}"
    then obtain f where f: "f < n_i_faces mesh" and m: "int v + 1 \<in> set (face_vertices mesh f)"
      and x: "x = int f + 1" by blast
    from m obtain i where i: "i \<in> set (range1 (i_face_vtx_idx mesh) f)"
      and "i_face_vtx_lst mesh ! i = int v + 1"
      by (auto simp: face_vertices_range)
    then have "nat (i_face_vtx_lst mesh ! i - 1) = v" using iff [OF f i] by simp
    then show "x \<in> set (entries v (vtx_face_events mesh))"
      using f i x by (auto simp: entries_vtx_face_events)
  qed
qed

lemma vtx_faces_count_events:
  assumes "face_vertices_ok mesh"
  shows "vtx_faces_count mesh idx = fold count_event (vtx_face_events mesh) idx"
proof -
  let ?h = "\<lambda>f i. (nat (i_face_vtx_lst mesh ! i - 1), int f + 1)"
  have inner: "fold (\<lambda>i idx. let vtx_id = i_face_vtx_lst mesh ! i - 1
                            in idx[nat (vtx_id + 1) := idx ! nat (vtx_id + 1) + 1])
                  (range1 (i_face_vtx_idx mesh) f)
             = fold count_event (map (?h f) (range1 (i_face_vtx_idx mesh) f))"
    if f: "f \<in> set [0..<n_i_faces mesh]" for f
  proof -
    have step: "(\<lambda>idx. let vtx_id = i_face_vtx_lst mesh ! i - 1
                            in idx[nat (vtx_id + 1) := idx ! nat (vtx_id + 1) + 1])
        = count_event (?h f i)"
      if i: "i \<in> set (range1 (i_face_vtx_idx mesh) f)" for i
    proof -
      have "1 \<le> i_face_vtx_lst mesh ! i" using face_vertex_bounds(1) [OF assms _ i] f by simp
      then have "nat (i_face_vtx_lst mesh ! i - 1 + 1) = nat (i_face_vtx_lst mesh ! i - 1) + 1"
        by simp
      then show ?thesis by (intro ext) (simp add: count_event_def Let_def)
    qed
    have "fold (\<lambda>i idx. let vtx_id = i_face_vtx_lst mesh ! i - 1
                            in idx[nat (vtx_id + 1) := idx ! nat (vtx_id + 1) + 1])
                  (range1 (i_face_vtx_idx mesh) f) s
        = fold (\<lambda>i. count_event (?h f i)) (range1 (i_face_vtx_idx mesh) f) s" for s
      by (rule fold_cong [OF refl refl]) (rule step)
    then show ?thesis by (intro ext) (simp add: fold_map comp_def)
  qed
  have "vtx_faces_count mesh idx =
      fold (\<lambda>f. fold count_event (map (?h f) (range1 (i_face_vtx_idx mesh) f))) [0..<n_i_faces mesh] idx"
    unfolding vtx_faces_count_def by (rule fold_cong [OF refl refl inner])
  then show ?thesis by (simp add: vtx_face_events_def fold_concat_map)
qed

lemma vtx_faces_fill_events:
  "vtx_faces_fill mesh s = fold cursor_event (vtx_face_events mesh) s"
proof -
  let ?h = "\<lambda>f i. (nat (i_face_vtx_lst mesh ! i - 1), int f + 1)"
  have step: "(\<lambda>i (vtx_faces_lst, vtx_faces_idx).
                     let vtx_id = i_face_vtx_lst mesh ! i - 1
                     in (vtx_faces_lst[nat (vtx_faces_idx ! nat vtx_id - 1) := int f + 1],
                         vtx_faces_idx[nat vtx_id := vtx_faces_idx ! nat vtx_id + 1]))
      = (\<lambda>i. cursor_event (?h f i))" for f
    by (intro ext) (simp add: cursor_event_def Let_def case_prod_beta)
  have "vtx_faces_fill mesh s =
      fold (\<lambda>f. fold cursor_event (map (?h f) (range1 (i_face_vtx_idx mesh) f))) [0..<n_i_faces mesh] s"
    unfolding vtx_faces_fill_def step by (simp add: fold_map comp_def)
  then show ?thesis by (simp add: vtx_face_events_def fold_concat_map)
qed

lemma cursor_events:
  assumes rows: "\<forall>e \<in> set es. fst e < n" and len: "length idx = n + 1"
  shows "fold cursor_event es (lst0, idx) =
     (fst (fold (fill_event (\<lambda>c. idx ! c - 1)) es (lst0, replicate n 0)),
      map (\<lambda>c. idx ! c + snd (fold (fill_event (\<lambda>c. idx ! c - 1)) es (lst0, replicate n 0)) ! c)
        [0..<n] @ [idx ! n])"
  using rows
proof (induction es rule: rev_induct)
  case Nil
  have i: "map (\<lambda>c. idx ! c) [0..<n] @ [idx ! n] = idx"
    using len by (auto simp: list_eq_iff_nth_eq nth_append less_Suc_eq)
  have m: "map (\<lambda>c. idx ! c + replicate n 0 ! c) [0..<n] = map (\<lambda>c. idx ! c) [0..<n]"
    by (rule map_cong) simp_all
  show ?case by (simp add: m i)
next
  case (snoc e es)
  let ?start = "\<lambda>c. idx ! c - 1"
  let ?s = "fold (fill_event ?start) es (lst0, replicate n 0)"
  let ?I = "map (\<lambda>c. idx ! c + snd ?s ! c) [0..<n] @ [idx ! n]"
  have IH: "fold cursor_event es (lst0, idx) = (fst ?s, ?I)"
    using snoc by simp
  have e: "fst e < n" using snoc.prems by simp
  have lens: "length (snd ?s) = n"
  proof -
    have "length (snd (fold (fill_event ?start) xs (lst0, c0))) = length c0" for xs c0
      by (induction xs arbitrary: lst0 c0) (simp_all add: fill_event_def)
    then show ?thesis by simp
  qed
  have Ie: "?I ! fst e = idx ! fst e + snd ?s ! fst e" using e by (simp add: nth_append)
  have pos: "nat (?I ! fst e - 1) = nat (?start (fst e) + snd ?s ! fst e)"
    unfolding Ie by (simp add: algebra_simps)
  have upd: "?I[fst e := ?I ! fst e + 1]
      = map (\<lambda>c. idx ! c + (snd ?s)[fst e := snd ?s ! fst e + 1] ! c) [0..<n] @ [idx ! n]"
    using e lens by (auto simp: list_eq_iff_nth_eq nth_append nth_list_update)
  have "fold cursor_event (es @ [e]) (lst0, idx) = cursor_event e (fst ?s, ?I)"
    using IH by simp
  also have "\<dots> = ((fst ?s)[nat (?start (fst e) + snd ?s ! fst e) := snd e],
      map (\<lambda>c. idx ! c + (snd ?s)[fst e := snd ?s ! fst e + 1] ! c) [0..<n] @ [idx ! n])"
    unfolding cursor_event_def fst_conv snd_conv pos upd ..
  also have "\<dots> = (fst (fold (fill_event ?start) (es @ [e]) (lst0, replicate n 0)),
      map (\<lambda>c. idx ! c + snd (fold (fill_event ?start) (es @ [e]) (lst0, replicate n 0)) ! c)
        [0..<n] @ [idx ! n])"
    by (simp add: fill_event_def)
  finally show ?case .
qed

lemma shift_back:
  fixes idx :: "int list"
  assumes "k < length idx"
  shows "length (fold (\<lambda>v idx. idx[v := idx ! (v - 1)]) (rev [1..<Suc k]) idx) = length idx
       \<and> (\<forall>v < length idx.
            fold (\<lambda>v idx. idx[v := idx ! (v - 1)]) (rev [1..<Suc k]) idx ! v
              = (if 1 \<le> v \<and> v \<le> k then idx ! (v - 1) else idx ! v))"
  using assms
proof (induction k arbitrary: idx)
  case 0
  then show ?case by simp
next
  case (Suc k)
  define idx1 where "idx1 = idx[Suc k := idx ! k]"
  define r where "r = fold (\<lambda>v idx. idx[v := idx ! (v - 1)]) (rev [1..<Suc k]) idx1"
  have l1: "length idx1 = length idx" by (simp add: idx1_def)
  have k: "k < length idx1" using Suc.prems l1 by simp
  have "rev [1..<Suc (Suc k)] = Suc k # rev [1..<Suc k]" by simp
  then have step: "fold (\<lambda>v idx. idx[v := idx ! (v - 1)]) (rev [1..<Suc (Suc k)]) idx = r"
    unfolding r_def idx1_def by simp
  from Suc.IH [OF k]
  have len: "length r = length idx"
    and nth: "\<And>v. v < length idx \<Longrightarrow> r ! v = (if 1 \<le> v \<and> v \<le> k then idx1 ! (v - 1) else idx1 ! v)"
    unfolding r_def l1 by blast+
  have "r ! v = (if 1 \<le> v \<and> v \<le> Suc k then idx ! (v - 1) else idx ! v)" if v: "v < length idx" for v
  proof -
    consider "v \<le> k" | "v = Suc k" | "Suc k < v" by linarith
    then show ?thesis
    proof cases
      case 1
      then have "v - 1 \<noteq> Suc k" "v \<noteq> Suc k" by simp_all
      then show ?thesis using nth [OF v] 1 by (simp add: idx1_def)
    next
      case 2
      then show ?thesis using nth [OF v] Suc.prems by (simp add: idx1_def)
    next
      case 3
      then show ?thesis using nth [OF v] by (simp add: idx1_def)
    qed
  qed
  then show ?case unfolding step using len by blast
qed

lemma vtx_faces_connect_rows:
  assumes ok: "face_vertices_ok mesh"
    and res: "vtx_faces_connect mesh = (vtx_faces_idx, vtx_faces_lst)"
    and v: "v < n_vertices mesh"
  shows "row1 vtx_faces_idx vtx_faces_lst v = entries v (vtx_face_events mesh)"
proof -
  let ?n = "n_vertices mesh"
  let ?es = "vtx_face_events mesh"
  define idx1 where "idx1 = vtx_faces_count mesh (replicate (?n + 1) 0)"
  define idx2 where "idx2 = fold (\<lambda>vtx_id idx. idx[vtx_id + 1 := idx ! (vtx_id + 1) + idx ! vtx_id])
                   [0..<?n] (idx1[0 := 1])"
  define lst0 where "lst0 = replicate (nat (idx2 ! ?n - 1)) (0::int)"
  define fill where "fill = vtx_faces_fill mesh (lst0, idx2)"
  define idx4 where
    "idx4 = fold (\<lambda>vtx_id idx. idx[vtx_id := idx ! (vtx_id - 1)]) (rev [1..<?n + 1]) (snd fill)"
  define start where "start = (\<lambda>c. idx2 ! c - 1)"
  define fin where "fin = fold (fill_event start) ?es (lst0, replicate ?n 0)"
  have conn: "vtx_faces_connect mesh = (idx4[0 := 1], fst fill)"
    by (simp only: vtx_faces_connect_def Let_def case_prod_beta idx4_def fill_def lst0_def
        idx2_def idx1_def)
  have rows: "\<forall>e \<in> set ?es. fst e < ?n" by (rule vtx_face_events_rows [OF ok])
  have idx1: "idx1 = fold count_event ?es (replicate (?n + 1) 0)"
    unfolding idx1_def by (rule vtx_faces_count_events [OF ok])
  have len1: "length idx1 = ?n + 1" and cnt1: "\<forall>c < ?n. idx1 ! (c + 1) = int (cnt c ?es)"
    unfolding idx1 using count_events [OF rows, of "replicate (?n + 1) 0"] by simp_all
  have len1': "length (idx1[0 := 1]) = ?n + 1" using len1 by simp
  from prefix_sums_upto [OF len1' le_refl]
  have len2: "length idx2 = ?n + 1"
    and sums: "\<forall>j \<le> ?n. idx2 ! j = (idx1[0 := 1]) ! 0 + (\<Sum>c < j. (idx1[0 := 1]) ! (c + 1))"
    unfolding idx2_def by simp_all
  have start: "start j = (\<Sum>c < j. int (cnt c ?es))" if "j \<le> ?n" for j
  proof -
    have "(\<Sum>c < j. (idx1[0 := 1]) ! (c + 1)) = (\<Sum>c < j. int (cnt c ?es))"
      using cnt1 that by (intro sum.cong) auto
    moreover have "(idx1[0 := 1]) ! 0 = 1" using len1 by simp
    ultimately show ?thesis using sums that by (simp add: start_def)
  qed
  have next_start: "start (c + 1) = start c + int (cnt c ?es)" if "c < ?n" for c
    using start [of c] start [of "c + 1"] that by simp
  have pos: "\<forall>c < ?n. 0 \<le> start c"
    using start by (simp add: sum_nonneg)
  have total: "int (length lst0) = (\<Sum>c < ?n. int (cnt c ?es))"
    using start [of ?n] by (simp add: lst0_def start_def sum_nonneg)
  have fit: "\<forall>c < ?n. start c + int (cnt c ?es) \<le> int (length lst0)"
  proof (intro allI impI)
    fix c assume c: "c < ?n"
    have "(\<Sum>x < c. int (cnt x ?es)) + int (cnt c ?es) \<le> (\<Sum>x < Suc c. int (cnt x ?es))" by simp
    also have "\<dots> \<le> (\<Sum>x < ?n. int (cnt x ?es))"
      using c by (intro sum_mono2) auto
    finally show "start c + int (cnt c ?es) \<le> int (length lst0)"
      using start [of c] c total by simp
  qed
  have sep: "\<forall>c c'. c < c' \<longrightarrow> c' < ?n \<longrightarrow> start c + int (cnt c ?es) \<le> start c'"
    using sum_cnt_mono [of _ _ ?es] start by simp
  have fill: "fill = (fst fin, map (\<lambda>c. idx2 ! c + snd fin ! c) [0..<?n] @ [idx2 ! ?n])"
    unfolding fill_def fin_def start_def vtx_faces_fill_events by (rule cursor_events [OF rows len2])
  have cnts: "snd fin = map (\<lambda>c. int (cnt c ?es)) [0..<?n]"
    unfolding fin_def using fill_events [OF rows pos _ fit sep] by simp
  have idx3: "snd fill ! c = idx2 ! (c + 1)" if "c < ?n" for c
  proof -
    have "snd fill ! c = idx2 ! c + int (cnt c ?es)"
      using that by (simp add: fill cnts nth_append)
    also have "\<dots> = idx2 ! (c + 1)"
      using next_start [OF that] by (simp add: start_def)
    finally show ?thesis .
  qed
  have len3: "length (snd fill) = ?n + 1" by (simp add: fill)
  have n3: "?n < length (snd fill)" using len3 by simp
  have idx4': "idx4 = fold (\<lambda>vtx_id idx. idx[vtx_id := idx ! (vtx_id - 1)]) (rev [1..<Suc ?n]) (snd fill)"
    unfolding idx4_def by (simp only: Suc_eq_plus1)
  from shift_back [OF n3]
  have len4: "length idx4 = ?n + 1"
    and idx4: "\<forall>j < ?n + 1. idx4 ! j = (if 1 \<le> j \<and> j \<le> ?n then snd fill ! (j - 1) else snd fill ! j)"
    unfolding idx4' len3 by blast+
  have final: "(idx4[0 := 1]) ! j = idx2 ! j" if "j \<le> ?n" for j
  proof (cases "j = 0")
    case True
    then show ?thesis using len4 start [of 0] by (simp add: start_def)
  next
    case False
    then have "idx4 ! j = snd fill ! (j - 1)" using idx4 that by simp
    also have "\<dots> = idx2 ! j" using idx3 [of "j - 1"] that False by simp
    finally show ?thesis using False by simp
  qed
  have eq: "vtx_faces_idx = idx4[0 := 1]" "vtx_faces_lst = fst fin"
    using res conn by (simp_all add: fill)
  have a: "nat (vtx_faces_idx ! v - 1) = nat (start v)"
    unfolding eq using final [of v] v by (simp add: start_def)
  have b: "nat (vtx_faces_idx ! (v + 1) - 1) = nat (start v + int (cnt v ?es))"
    unfolding eq using final [of "v + 1"] next_start [OF v] v by (simp add: start_def)
  have "row1 vtx_faces_idx vtx_faces_lst v =
      map (\<lambda>k. fst fin ! k) [nat (start v)..<nat (start v + int (cnt v ?es))]"
    unfolding row1_def a b by (simp add: eq)
  also have "\<dots> = entries v ?es"
    unfolding fin_def by (rule fill_events_rows [OF rows pos fit sep v])
  finally show ?thesis .
qed

lemma already_seen_iff:
  "already_seen x lst i (length lst) \<longleftrightarrow> x \<in> set (drop i lst)"
proof (induction "length lst - i" arbitrary: i)
  case 0
  then show ?case by (subst already_seen.simps) simp
next
  case (Suc d)
  then have i: "i < length lst" and d: "d = length lst - (i + 1)" by simp_all
  have "drop i lst = lst ! i # drop (i + 1) lst" using i by (simp add: Cons_nth_drop_Suc)
  then show ?case using Suc.hyps(1) [OF d] i
    by (subst already_seen.simps) auto
qed

lemma vtx_cells_add_eq:
  "vtx_cells_add mesh v face_id j (vci, vcl) =
     (vci, add_new (nat (vci ! v - 1)) (i_face_cells mesh ! (2 * nat face_id + j)) vcl)"
  unfolding vtx_cells_add_def add_new_def Let_def case_prod_conv already_seen_iff
  by (rule if_split [THEN iffD2]) simp

lemma fold_add_new:
  assumes "start \<le> length lst"
  shows "\<exists>ys. fold (add_new start) cs lst = lst @ ys
           \<and> set (drop start lst) \<union> set cs = set (drop start lst) \<union> set ys"
  using assms
proof (induction cs arbitrary: lst)
  case Nil
  then show ?case by simp
next
  case (Cons c cs)
  show ?case
  proof (cases "c \<in> set (drop start lst)")
    case True
    then have "add_new start c lst = lst" by (simp add: add_new_def)
    then show ?thesis using Cons.IH [OF Cons.prems] True by auto
  next
    case False
    then have a: "add_new start c lst = lst @ [c]" by (simp add: add_new_def)
    have "start \<le> length (lst @ [c])" using Cons.prems by simp
    from Cons.IH [OF this] obtain ys where ys: "fold (add_new start) cs (lst @ [c]) = (lst @ [c]) @ ys"
      "set (drop start (lst @ [c])) \<union> set cs = set (drop start (lst @ [c])) \<union> set ys"
      by blast
    have d: "drop start (lst @ [c]) = drop start lst @ [c]" using Cons.prems by simp
    have "fold (add_new start) (c # cs) lst = lst @ (c # ys)" using ys(1) a by simp
    moreover have "set (drop start lst) \<union> set (c # cs) = set (drop start lst) \<union> set (c # ys)"
      using ys(2) unfolding d by auto
    ultimately show ?thesis by blast
  qed
qed

lemma vertex_faces_loop:
  "fold (\<lambda>i. let face_id = vfl ! i - 1 in fold (vtx_cells_add mesh v face_id) [0..<2]) is (vci, vcl)
     = (vci, fold (add_new (nat (vci ! v - 1)))
               (concat (map (\<lambda>i. [i_face_cells mesh ! (2 * nat (vfl ! i - 1)),
                                   i_face_cells mesh ! (2 * nat (vfl ! i - 1) + 1)]) is)) vcl)"
proof -
  have two: "[0..<2] = [0, Suc 0]" by (simp add: upt_rec)
  have step: "(\<lambda>i. let face_id = vfl ! i - 1 in fold (vtx_cells_add mesh v face_id) [0..<2])
      = (\<lambda>i s. vtx_cells_add mesh v (vfl ! i - 1) (Suc 0) (vtx_cells_add mesh v (vfl ! i - 1) 0 s))"
    by (intro ext) (simp add: two Let_def)
  have "fold (\<lambda>i s. vtx_cells_add mesh v (vfl ! i - 1) (Suc 0) (vtx_cells_add mesh v (vfl ! i - 1) 0 s)) is (vci, vcl)
     = (vci, fold (add_new (nat (vci ! v - 1)))
               (concat (map (\<lambda>i. [i_face_cells mesh ! (2 * nat (vfl ! i - 1)),
                                   i_face_cells mesh ! Suc (2 * nat (vfl ! i - 1))]) is)) vcl)"
  proof (induction "is" arbitrary: vcl)
    case Nil
    then show ?case by simp
  next
    case (Cons i "is")
    show ?case by (simp add: vtx_cells_add_eq Cons.IH)
  qed
  then show ?thesis unfolding step by simp
qed

lemma vertex_cells_set:
  "set (vertex_cells mesh vtx) =
     {i_face_cells mesh ! (2 * f + j) | f j. f < n_i_faces mesh \<and> j < 2 \<and> vtx \<in> set (face_vertices mesh f)}"
proof (intro set_eqI iffI)
  fix x assume "x \<in> set (vertex_cells mesh vtx)"
  then obtain f where f: "f < n_i_faces mesh" "vtx \<in> set (face_vertices mesh f)"
    and x: "x = i_face_cells mesh ! (2 * f) \<or> x = i_face_cells mesh ! (2 * f + 1)"
    by (auto simp: vertex_cells_def split: if_splits)
  from x have "\<exists>j < 2. x = i_face_cells mesh ! (2 * f + j)"
  proof
    assume "x = i_face_cells mesh ! (2 * f)"
    then have "x = i_face_cells mesh ! (2 * f + 0)" by simp
    then show ?thesis by (intro exI [of _ 0]) simp
  next
    assume "x = i_face_cells mesh ! (2 * f + 1)"
    then show ?thesis by (intro exI [of _ 1]) simp
  qed
  then show "x \<in> {i_face_cells mesh ! (2 * f + j) | f j. f < n_i_faces mesh \<and> j < 2 \<and> vtx \<in> set (face_vertices mesh f)}"
    using f by blast
next
  fix x assume "x \<in> {i_face_cells mesh ! (2 * f + j) | f j. f < n_i_faces mesh \<and> j < 2 \<and> vtx \<in> set (face_vertices mesh f)}"
  then obtain f j where f: "f < n_i_faces mesh" "vtx \<in> set (face_vertices mesh f)" and j: "j < 2"
    and x: "x = i_face_cells mesh ! (2 * f + j)" by blast
  from j have "j = 0 \<or> j = 1" by auto
  then have "x = i_face_cells mesh ! (2 * f) \<or> x = i_face_cells mesh ! (2 * f + 1)"
    using x by auto
  then show "x \<in> set (vertex_cells mesh vtx)"
    using f by (auto simp: vertex_cells_def intro!: bexI [of _ f])
qed

lemma vtx_cell_nums_set:
  assumes ok: "face_vertices_ok mesh"
    and res: "vtx_faces_connect mesh = (vfi, vfl)"
    and v: "v < n_vertices mesh"
  shows "set (vtx_cell_nums mesh vfi vfl v) = set (vertex_cells mesh (int v + 1))"
proof -
  have row: "set (map (\<lambda>i. vfl ! i) (range1 vfi v)) =
      {int f + 1 | f. f < n_i_faces mesh \<and> int v + 1 \<in> set (face_vertices mesh f)}"
    using vtx_faces_connect_rows [OF ok res v] set_entries_vtx_face_events [OF ok, of v]
    by (simp add: row1_def range1_def)
  have "set (vtx_cell_nums mesh vfi vfl v) =
      {i_face_cells mesh ! (2 * nat (x - 1) + j) | x j. x \<in> set (map (\<lambda>i. vfl ! i) (range1 vfi v)) \<and> j < 2}"
  proof (intro set_eqI iffI)
    fix c assume "c \<in> set (vtx_cell_nums mesh vfi vfl v)"
    then obtain i where i: "i \<in> set (range1 vfi v)"
      and c: "c = i_face_cells mesh ! (2 * nat (vfl ! i - 1)) \<or> c = i_face_cells mesh ! (2 * nat (vfl ! i - 1) + 1)"
      by (auto simp: vtx_cell_nums_def)
    from c have "\<exists>j < 2. c = i_face_cells mesh ! (2 * nat (vfl ! i - 1) + j)"
    proof
      assume "c = i_face_cells mesh ! (2 * nat (vfl ! i - 1))"
      then have "c = i_face_cells mesh ! (2 * nat (vfl ! i - 1) + 0)" by simp
      then show ?thesis by (intro exI [of _ 0]) simp
    next
      assume "c = i_face_cells mesh ! (2 * nat (vfl ! i - 1) + 1)"
      then show ?thesis by (intro exI [of _ 1]) simp
    qed
    moreover have "vfl ! i \<in> set (map (\<lambda>i. vfl ! i) (range1 vfi v))" using i by simp
    ultimately show "c \<in> {i_face_cells mesh ! (2 * nat (x - 1) + j) | x j.
        x \<in> set (map (\<lambda>i. vfl ! i) (range1 vfi v)) \<and> j < 2}" by blast
  next
    fix c assume "c \<in> {i_face_cells mesh ! (2 * nat (x - 1) + j) | x j.
        x \<in> set (map (\<lambda>i. vfl ! i) (range1 vfi v)) \<and> j < 2}"
    then obtain x j where x: "x \<in> set (map (\<lambda>i. vfl ! i) (range1 vfi v))" and j: "j < 2"
      and c: "c = i_face_cells mesh ! (2 * nat (x - 1) + j)" by blast
    from x obtain i where i: "i \<in> set (range1 vfi v)" "x = vfl ! i" by auto
    from j have "j = 0 \<or> j = 1" by auto
    then have "c = i_face_cells mesh ! (2 * nat (vfl ! i - 1)) \<or> c = i_face_cells mesh ! (2 * nat (vfl ! i - 1) + 1)"
      using c i(2) by auto
    then show "c \<in> set (vtx_cell_nums mesh vfi vfl v)"
      using i(1) by (auto simp: vtx_cell_nums_def intro!: bexI [of _ i])
  qed
  also have "\<dots> = {i_face_cells mesh ! (2 * f + j) | f j.
      f < n_i_faces mesh \<and> j < 2 \<and> int v + 1 \<in> set (face_vertices mesh f)}"
    unfolding row
  proof (intro set_eqI iffI)
    fix c assume "c \<in> {i_face_cells mesh ! (2 * nat (x - 1) + j) | x j.
        x \<in> {int f + 1 | f. f < n_i_faces mesh \<and> int v + 1 \<in> set (face_vertices mesh f)} \<and> j < 2}"
    then obtain f j where "f < n_i_faces mesh" "int v + 1 \<in> set (face_vertices mesh f)" "j < 2"
      "c = i_face_cells mesh ! (2 * nat (int f + 1 - 1) + j)" by blast
    then show "c \<in> {i_face_cells mesh ! (2 * f + j) | f j.
      f < n_i_faces mesh \<and> j < 2 \<and> int v + 1 \<in> set (face_vertices mesh f)}" by auto
  next
    fix c assume "c \<in> {i_face_cells mesh ! (2 * f + j) | f j.
      f < n_i_faces mesh \<and> j < 2 \<and> int v + 1 \<in> set (face_vertices mesh f)}"
    then obtain f j where f: "f < n_i_faces mesh" "int v + 1 \<in> set (face_vertices mesh f)" and j: "j < 2"
      and c: "c = i_face_cells mesh ! (2 * f + j)" by blast
    have "c = i_face_cells mesh ! (2 * nat ((int f + 1) - 1) + j)" using c by simp
    moreover have "int f + 1 \<in> {int f + 1 | f. f < n_i_faces mesh \<and> int v + 1 \<in> set (face_vertices mesh f)}"
      using f by blast
    ultimately show "c \<in> {i_face_cells mesh ! (2 * nat (x - 1) + j) | x j.
        x \<in> {int f + 1 | f. f < n_i_faces mesh \<and> int v + 1 \<in> set (face_vertices mesh f)} \<and> j < 2}"
      using j by blast
  qed
  finally show ?thesis by (simp add: vertex_cells_set)
qed

lemma map_nth_append_tail:
  "map (\<lambda>k. (xs @ ys) ! k) [length xs..<length xs + length ys] = ys"
  by (rule nth_equalityI) (simp_all add: nth_append)

lemma map_nth_append_head:
  "b \<le> length xs \<Longrightarrow> map (\<lambda>k. (xs @ ys) ! k) [a..<b] = map (\<lambda>k. xs ! k) [a..<b]"
  by (rule map_cong) (simp_all add: nth_append)

lemma vtx_cells_round_eq:
  "vtx_cells_round mesh vfi vfl u (vci, vcl) =
     (vci[u + 1 := int (length (fold (add_new (nat (vci ! u - 1))) (vtx_cell_nums mesh vfi vfl u) vcl)) + 1],
      fold (add_new (nat (vci ! u - 1))) (vtx_cell_nums mesh vfi vfl u) vcl)"
proof -
  have loop: "fold (\<lambda>i. let face_id = vfl ! i - 1 in fold (vtx_cells_add mesh u face_id) [0..<2])
        (range1 vfi u) (vci, vcl)
      = (vci, fold (add_new (nat (vci ! u - 1))) (vtx_cell_nums mesh vfi vfl u) vcl)"
    by (simp only: vertex_faces_loop vtx_cell_nums_def)
  show ?thesis unfolding vtx_cells_round_def loop by simp
qed

lemma vtx_cells_round_inv:
  assumes inv: "vtx_cells_inv mesh vfi vfl k s" and k: "k < n_vertices mesh"
  shows "vtx_cells_inv mesh vfi vfl (Suc k) (vtx_cells_round mesh vfi vfl k s)"
proof -
  obtain vci vcl where s: "s = (vci, vcl)" by (cases s)
  let ?cs = "vtx_cell_nums mesh vfi vfl k"
  from inv have len: "length vci = n_vertices mesh + 1"
    and cur: "vci ! k = int (length vcl) + 1"
    and bnd: "\<And>u. u \<le> k \<Longrightarrow> 1 \<le> vci ! u \<and> vci ! u \<le> int (length vcl) + 1"
    and rows: "\<And>u. u < k \<Longrightarrow> set (row1 vci vcl u) = set (vtx_cell_nums mesh vfi vfl u)"
    unfolding vtx_cells_inv_def s by simp_all
  have start: "nat (vci ! k - 1) = length vcl" using cur by simp
  from fold_add_new [of "length vcl" vcl ?cs]
  obtain ys where ys: "fold (add_new (length vcl)) ?cs vcl = vcl @ ys" and sets: "set ?cs = set ys"
    by auto
  define vci' where "vci' = vci[k + 1 := int (length (vcl @ ys)) + 1]"
  have round: "vtx_cells_round mesh vfi vfl k s = (vci', vcl @ ys)"
    unfolding s vtx_cells_round_eq start ys vci'_def ..
  have len': "length vci' = n_vertices mesh + 1" using len by (simp add: vci'_def)
  have new: "vci' ! (k + 1) = int (length (vcl @ ys)) + 1"
    using len k by (simp add: vci'_def)
  have old: "vci' ! u = vci ! u" if "u \<le> k" for u
    using that by (simp add: vci'_def)
  have bnd': "1 \<le> vci' ! u \<and> vci' ! u \<le> int (length (vcl @ ys)) + 1" if "u \<le> Suc k" for u
  proof (cases "u \<le> k")
    case True
    then show ?thesis using bnd [OF True] old [OF True] by simp
  next
    case False
    then have "u = k + 1" using that by simp
    then show ?thesis using new by simp
  qed
  have rows': "set (row1 vci' (vcl @ ys) u) = set (vtx_cell_nums mesh vfi vfl u)" if "u < Suc k" for u
  proof (cases "u < k")
    case True
    then have u1: "u + 1 \<le> k" by simp
    have "nat (vci ! (u + 1) - 1) \<le> length vcl" using bnd [OF u1] by (simp add: nat_le_iff)
    then have "map (\<lambda>j. (vcl @ ys) ! j) [nat (vci ! u - 1)..<nat (vci ! (u + 1) - 1)]
        = map (\<lambda>j. vcl ! j) [nat (vci ! u - 1)..<nat (vci ! (u + 1) - 1)]"
      by (rule map_nth_append_head)
    then have "row1 vci' (vcl @ ys) u = row1 vci vcl u"
      unfolding row1_def using old [of u] old [OF u1] True by simp
    then show ?thesis using rows [OF True] by simp
  next
    case False
    then have u: "u = k" using that by simp
    have "row1 vci' (vcl @ ys) k = map (\<lambda>j. (vcl @ ys) ! j) [length vcl..<length vcl + length ys]"
      unfolding row1_def using old [of k] new start by (simp add: nat_add_distrib)
    also have "\<dots> = ys" by (rule map_nth_append_tail)
    finally show ?thesis using sets u by simp
  qed
  show ?thesis
    unfolding round vtx_cells_inv_def fst_conv snd_conv
    using len' new bnd' rows' by simp
qed

lemma vtx_cells_rounds_inv:
  assumes "k \<le> n_vertices mesh"
  shows "vtx_cells_inv mesh vfi vfl k
           (fold (vtx_cells_round mesh vfi vfl) [0..<k] ((replicate (n_vertices mesh + 1) 0)[0 := 1], []))"
  using assms
proof (induction k)
  case 0
  then show ?case by (simp add: vtx_cells_inv_def)
next
  case (Suc k)
  then have "vtx_cells_inv mesh vfi vfl k
      (fold (vtx_cells_round mesh vfi vfl) [0..<k] ((replicate (n_vertices mesh + 1) 0)[0 := 1], []))"
    and k: "k < n_vertices mesh" by simp_all
  from vtx_cells_round_inv [OF this] show ?case by simp
qed

lemma create_vtx_cells_connect_rows:
  assumes ok: "face_vertices_ok mesh"
    and res: "create_vtx_cells_connect mesh = (vci, vcl)"
    and v: "v < n_vertices mesh"
  shows "set (row1 vci vcl v) = set (vertex_cells mesh (int v + 1))"
proof -
  obtain vfi vfl where vf: "vtx_faces_connect mesh = (vfi, vfl)"
    by (cases "vtx_faces_connect mesh")
  have "create_vtx_cells_connect mesh =
      fold (vtx_cells_round mesh vfi vfl) [0..<n_vertices mesh]
        ((replicate (n_vertices mesh + 1) 0)[0 := 1], [])"
    unfolding create_vtx_cells_connect_def vf Let_def case_prod_conv vtx_cells_round_def [abs_def] ..
  then have "vtx_cells_inv mesh vfi vfl (n_vertices mesh) (vci, vcl)"
    using vtx_cells_rounds_inv [OF le_refl, of mesh vfi vfl] res by simp
  then have "set (row1 vci vcl v) = set (vtx_cell_nums mesh vfi vfl v)"
    using v by (simp add: vtx_cells_inv_def)
  then show ?thesis using vtx_cell_nums_set [OF ok vf v] by simp
qed

lemma face_touches_shares_vertex:
  assumes ok: "face_vertices_ok mesh"
    and res: "create_vtx_cells_connect mesh = (vci, vcl)"
    and f: "f < n_i_faces mesh"
  shows "face_touches mesh vci vcl f e \<longleftrightarrow> shares_vertex mesh f e"
proof -
  have row: "(\<exists>k \<in> set (range1 vci (nat (i_face_vtx_lst mesh ! j - 1))). vcl ! k = e)
      \<longleftrightarrow> e \<in> set (vertex_cells mesh (i_face_vtx_lst mesh ! j))"
    if j: "j \<in> set (range1 (i_face_vtx_idx mesh) f)" for j
  proof -
    from face_vertex_bounds [OF ok f j]
    have b: "1 \<le> i_face_vtx_lst mesh ! j" "i_face_vtx_lst mesh ! j \<le> int (n_vertices mesh)"
      by simp_all
    then have v: "nat (i_face_vtx_lst mesh ! j - 1) < n_vertices mesh" by simp
    have "int (nat (i_face_vtx_lst mesh ! j - 1)) + 1 = i_face_vtx_lst mesh ! j" using b by simp
    with create_vtx_cells_connect_rows [OF ok res v]
    have "set (row1 vci vcl (nat (i_face_vtx_lst mesh ! j - 1)))
        = set (vertex_cells mesh (i_face_vtx_lst mesh ! j))" by simp
    moreover have "(\<exists>k \<in> set (range1 vci (nat (i_face_vtx_lst mesh ! j - 1))). vcl ! k = e)
        \<longleftrightarrow> e \<in> set (row1 vci vcl (nat (i_face_vtx_lst mesh ! j - 1)))"
      by (auto simp: row1_def range1_def)
    ultimately show ?thesis by simp
  qed
  have "face_touches mesh vci vcl f e \<longleftrightarrow>
      (\<exists>j \<in> set (range1 (i_face_vtx_idx mesh) f). e \<in> set (vertex_cells mesh (i_face_vtx_lst mesh ! j)))"
    unfolding face_touches_def using row by blast
  also have "\<dots> \<longleftrightarrow> shares_vertex mesh f e"
    by (auto simp: shares_vertex_def face_vertices_range)
  finally show ?thesis .
qed

text \<open>
  Claim C5. On the first call, with the extended connectivity present and well-formed,
  a well-formed mesh and a halo that is not the standard one, \<^verbatim>\<open>redvse\<close> leaves in the
  extended row of every cell exactly the entries that are admissible: some internal
  face has the cell as one of its two cells, has its cosine at or below the threshold,
  and has a vertex in common with an internal face of the cell listed. The entries that
  stay keep their order, and the result is again a well-formed connectivity: the index
  starts at 1, does not decrease, and ends at the length of the shrunk list plus 1.
\<close>

theorem redvse_keeps_admissible_entries:
  assumes "cell_cells_idx mesh = Some idx0" and "cell_cells_lst mesh = Some lst0"
    and "halo_type mesh \<noteq> CS_HALO_STANDARD"
    and "ext_rows_ok (n_cells mesh) idx0 lst0" and "cells_numbered mesh"
    and fv: "face_vertices_ok mesh"
  shows "\<exists>idx' lst'.
      redvse cos_ij_fn cos_ij_fn_min (0, mesh)
        = (1, mesh\<lparr>cell_cells_idx := Some idx', cell_cells_lst := Some lst'\<rparr>)
    \<and> ext_rows_ok (n_cells mesh) idx' lst'
    \<and> (\<forall>c < n_cells mesh.
          row1 idx' lst' c = filter (admissible cos_ij_fn cos_ij_fn_min mesh c) (row1 idx0 lst0 c))"
proof -
  obtain vci vcl where vc: "create_vtx_cells_connect mesh = (vci, vcl)"
    by (cases "create_vtx_cells_connect mesh")
  have "admissible_by cos_ij_fn cos_ij_fn_min mesh vci vcl c = admissible cos_ij_fn cos_ij_fn_min mesh c"
    for c
    unfolding admissible_by_def admissible_def
    using face_touches_shares_vertex [OF fv vc] by (intro ext) auto
  with redvse_result [OF assms(1-5) vc, of cos_ij_fn cos_ij_fn_min]
  show ?thesis by simp
qed

theorem redvse_keeps_admissible_entries_witness:
  "\<exists>idx' lst'.
      redvse line_cos (1 / 2) (0, line_mesh)
        = (1, line_mesh\<lparr>cell_cells_idx := Some idx', cell_cells_lst := Some lst'\<rparr>)
    \<and> row1 idx' lst' 0 = [3] \<and> row1 idx' lst' 1 = [] \<and> row1 idx' lst' 2 = []"
proof -
  have h1: "cell_cells_idx line_mesh = Some [1, 2, 2, 3]"
    and h2: "cell_cells_lst line_mesh = Some [3, 1]"
    and h3: "halo_type line_mesh \<noteq> CS_HALO_STANDARD"
    by (simp_all add: line_mesh_def)
  have n: "n_cells line_mesh = 3" by (simp add: line_mesh_def)
  have h4: "ext_rows_ok (n_cells line_mesh) [1, 2, 2, 3] [3, 1]" by code_simp
  have h5: "cells_numbered line_mesh" by code_simp
  have h6: "face_vertices_ok line_mesh" by code_simp
  have a0: "filter (admissible line_cos (1 / 2) line_mesh 0) (row1 [1, 2, 2, 3] [3, 1] 0) = [3]"
    and a1: "filter (admissible line_cos (1 / 2) line_mesh 1) (row1 [1, 2, 2, 3] [3, 1] 1) = []"
    and a2: "filter (admissible line_cos (1 / 2) line_mesh 2) (row1 [1, 2, 2, 3] [3, 1] 2) = []"
    by code_simp+
  from redvse_keeps_admissible_entries [OF h1 h2 h3 h4 h5 h6, of line_cos "1 / 2"]
  obtain idx' lst' where
    r: "redvse line_cos (1 / 2) (0, line_mesh)
        = (1, line_mesh\<lparr>cell_cells_idx := Some idx', cell_cells_lst := Some lst'\<rparr>)"
    and rows: "\<And>c. c < 3 \<Longrightarrow> row1 idx' lst' c =
            filter (admissible line_cos (1 / 2) line_mesh c) (row1 [1, 2, 2, 3] [3, 1] c)"
    unfolding n by blast
  have "row1 idx' lst' 0 = [3]" "row1 idx' lst' 1 = []" "row1 idx' lst' 2 = []"
    using rows [of 0] rows [of 1] rows [of 2] a0 a1 a2 by simp_all
  with r show ?thesis by blast
qed

end
